theory Spec2Isabelle
  imports Complex_Main "HOL-Library.AList"
begin

section \<open>JavaScript values as the storage engine sees them\<close>

text \<open>
  The storage engine (class \<open>StorageManager\<close>) keeps one JSON document in a file and
  addresses it with separator-delimited key paths. The document in memory is a tree of
  JavaScript values. A number is an IEEE-754 double: a finite value (kept as the exact
  rational it denotes; the sign of zero is not distinguished), NaN, or an infinity.
\<close>

datatype number = Finite rat | NaN | PosInf | NegInf

text \<open>
  An object is the list of its own properties, an array the list of its elements together
  with its own named (non-index) properties. A hole of an array reads as \<open>undefined\<close>, so
  it is kept as the element \<open>Undefined\<close>. The order of the properties of an object is an
  artefact of the list: no operation of the engine depends on it.

  The engine reads a property with \<open>current[part]\<close>, which follows the prototype chain, so
  it can come upon what every object and every array inherits: the built-in functions
  (\<open>Builtin\<close>, with the name of the function) and, under the name \<open>__proto__\<close>, the
  prototype itself: \<open>Object.prototype\<close> or \<open>Array.prototype\<close>. These are values too: \<open>get\<close>
  returns them to its caller.
\<close>

datatype jsval =
    Undefined
  | Null
  | Bool bool
  | Num number
  | Str string
  | Arr "jsval list" "(string \<times> jsval) list"
  | Obj "(string \<times> jsval) list"
  | Builtin string
  | ObjectPrototype
  | ArrayPrototype

text \<open>
  The errors the engine raises: the messages of its \<open>errors\<close> table and of its inline
  \<open>DatabaseError\<close>s, the errors of the file system that it lets through, and the
  \<open>TypeError\<close> and \<open>RangeError\<close> of the language itself. In the words of the
  specification \<open>UndefinedID\<close> and \<open>NonValidID\<close> are its InvalidKeyError,
  \<open>UndefinedValue\<close> its MissingValueError, and \<open>DataNotANumber\<close>, \<open>MustBeANumber\<close>
  and \<open>MustBeArray\<close> its TypeMismatchError.
\<close>

datatype error =
    DataNotANumber
  | MustBeANumber
  | MustBeArray
  | NonValidID
  | UndefinedID
  | UndefinedValue
  | ParseError
  | ClearConfirm
  | AccessError
  | ReadError
  | InvalidBackupPath
  | BackupExtension
  | BackupLoadError
  | FsError
  | TypeError
  | RangeError

text \<open>
  What an evaluation does: it returns a value or throws. \<open>Unmodelled\<close> marks the few
  places where the behaviour is decided by something that this development does not
  describe. The first is the state of the two prototypes, which every object of the
  process shares: they are taken as the language defines them, and an assignment to a
  property of a prototype, or the deletion of one, is \<open>Unmodelled\<close>; what is said here of an
  operation is said of a process in which no such write has been made. The others are
  the call of a function found under the name \<open>toJSON\<close> during serialisation, the
  properties of a primitive value or of a function, and the conversion of a string, an
  array or an object to an array length. A statement about the engine is only ever made
  where the result is \<open>Returns\<close> or \<open>Throws\<close>. The limits of memory (the length of a string
  or of an array) are left out as well.
\<close>

datatype 'a outcome = Returns 'a | Throws error | Unmodelled

fun bind :: "'a outcome \<Rightarrow> ('a \<Rightarrow> 'b outcome) \<Rightarrow> 'b outcome" where
  "bind (Returns x) f = f x"
| "bind (Throws e) f = Throws e"
| "bind Unmodelled f = Unmodelled"

subsection \<open>Double-precision addition\<close>

fun bit_length :: "nat \<Rightarrow> nat" where
  "bit_length n = (if n = 0 then 0 else Suc (bit_length (n div 2)))"

declare bit_length.simps [simp del]

text \<open>The exponent \<open>e\<close> with \<open>2 ^ e \<le> q < 2 ^ (e + 1)\<close>, for a positive \<open>q\<close>.\<close>

definition floor_log2 :: "rat \<Rightarrow> int" where
  "floor_log2 q =
     (let (a, b) = quotient_of q;
          k = int (bit_length (nat a)) - int (bit_length (nat b))
      in if power_int 2 k \<le> q then k else k - 1)"

definition round_half_even :: "rat \<Rightarrow> int" where
  "round_half_even x =
     (let f = \<lfloor>x\<rfloor>; d = x - of_int f
      in if d < 1 / 2 then f
         else if 1 / 2 < d then f + 1
         else if even f then f else f + 1)"

text \<open>
  Rounding of an exact result to binary64 (53 bits of precision, least exponent -1022,
  round to nearest, ties to even, overflow to infinity): the result is the multiple of
  the unit in the last place of \<open>q\<close> that is nearest to \<open>q\<close>.
\<close>

definition ulp :: "rat \<Rightarrow> rat" where
  "ulp q = power_int 2 (max (floor_log2 \<bar>q\<bar>) (- 1022) - 52)"

definition overflow_threshold :: rat where
  "overflow_threshold = 2 ^ 1024"

definition round64 :: "rat \<Rightarrow> number" where
  "round64 q =
     (if q = 0 then Finite 0
      else let r = of_int (round_half_even (\<bar>q\<bar> / ulp q)) * ulp q
           in if overflow_threshold \<le> r then (if 0 < q then PosInf else NegInf)
              else Finite (if 0 < q then r else - r))"

text \<open>The \<open>+\<close> of the language on two numbers.\<close>

fun fl_add :: "number \<Rightarrow> number \<Rightarrow> number" where
  "fl_add (Finite a) (Finite b) = round64 (a + b)"
| "fl_add NaN _ = NaN"
| "fl_add _ NaN = NaN"
| "fl_add PosInf NegInf = NaN"
| "fl_add NegInf PosInf = NaN"
| "fl_add PosInf _ = PosInf"
| "fl_add _ PosInf = PosInf"
| "fl_add NegInf _ = NegInf"
| "fl_add _ NegInf = NegInf"

text \<open>Unary minus.\<close>

fun fl_neg :: "number \<Rightarrow> number" where
  "fl_neg (Finite a) = Finite (- a)"
| "fl_neg NaN = NaN"
| "fl_neg PosInf = NegInf"
| "fl_neg NegInf = PosInf"

text \<open>\<open>n || 0\<close> on a number: zero and NaN are falsy.\<close>

fun or_zero :: "number \<Rightarrow> number" where
  "or_zero NaN = Finite 0"
| "or_zero n = n"

subsection \<open>typeof, property access\<close>

fun typeof :: "jsval \<Rightarrow> string" where
  "typeof Undefined = ''undefined''"
| "typeof Null = ''object''"
| "typeof (Bool _) = ''boolean''"
| "typeof (Num _) = ''number''"
| "typeof (Str _) = ''string''"
| "typeof (Arr _ _) = ''object''"
| "typeof (Obj _) = ''object''"
| "typeof (Builtin _) = ''function''"
| "typeof ObjectPrototype = ''object''"
| "typeof ArrayPrototype = ''object''"

text \<open>\<open>Array.isArray\<close>: \<open>Array.prototype\<close> is itself an array.\<close>

fun isArray :: "jsval \<Rightarrow> bool" where
  "isArray (Arr _ _) = True"
| "isArray ArrayPrototype = True"
| "isArray _ = False"

fun is_function :: "jsval \<Rightarrow> bool" where
  "is_function (Builtin _) = True"
| "is_function _ = False"

text \<open>A value that is an object of the language: not a primitive value, not \<open>null\<close>.\<close>

definition is_object :: "jsval \<Rightarrow> bool" where
  "is_object v \<longleftrightarrow> typeof v = ''object'' \<and> v \<noteq> Null \<or> is_function v"

text \<open>
  The properties of \<open>Object.prototype\<close> and of \<open>Array.prototype\<close> (ECMAScript 2025):
  functions, but for the \<open>length\<close> of \<open>Array.prototype\<close> and for \<open>__proto__\<close>, which reads
  as the prototype of the object it is read on. \<open>Object.prototype\<close> has no prototype, and
  the prototype of \<open>Array.prototype\<close> is \<open>Object.prototype\<close>.
\<close>

definition object_members :: "string list" where
  "object_members =
     [''constructor'', ''hasOwnProperty'', ''isPrototypeOf'',
      ''propertyIsEnumerable'', ''toLocaleString'', ''toString'', ''valueOf'',
      ''__defineGetter__'', ''__defineSetter__'', ''__lookupGetter__'', ''__lookupSetter__'']"

definition array_members :: "string list" where
  "array_members =
     [''constructor'', ''toLocaleString'', ''toString'',
      ''at'', ''concat'', ''copyWithin'', ''entries'', ''every'', ''fill'', ''filter'',
      ''find'', ''findIndex'', ''findLast'', ''findLastIndex'', ''flat'', ''flatMap'',
      ''forEach'', ''includes'', ''indexOf'', ''join'', ''keys'', ''lastIndexOf'', ''map'',
      ''pop'', ''push'', ''reduce'', ''reduceRight'', ''reverse'', ''shift'', ''slice'',
      ''some'', ''sort'', ''splice'', ''toReversed'', ''toSorted'', ''toSpliced'',
      ''unshift'', ''values'', ''with'']"

text \<open>\<open>Object.prototype[k]\<close> and \<open>Array.prototype[k]\<close>\<close>

definition object_member :: "string \<Rightarrow> jsval" where
  "object_member k =
     (if k = ''__proto__'' then Null
      else if k = ''constructor'' then Builtin ''Object''
      else if k \<in> set object_members then Builtin (''Object.prototype.'' @ k)
      else Undefined)"

definition array_member :: "string \<Rightarrow> jsval" where
  "array_member k =
     (if k = ''__proto__'' then ObjectPrototype
      else if k = ''length'' then Num (Finite 0)
      else if k = ''constructor'' then Builtin ''Array''
      else if k \<in> set array_members then Builtin (''Array.prototype.'' @ k)
      else object_member k)"

text \<open>
  A property name is an array index when it is the canonical decimal form of an integer
  below \<open>2 ^ 32 - 1\<close>.
\<close>

definition is_digit :: "char \<Rightarrow> bool" where
  "is_digit c = (c \<in> set ''0123456789'')"

definition digit_value :: "char \<Rightarrow> nat" where
  "digit_value c = of_char c - 48"

definition decimal_value :: "string \<Rightarrow> nat" where
  "decimal_value s = foldl (\<lambda>n c. 10 * n + digit_value c) 0 s"

definition array_index :: "string \<Rightarrow> nat option" where
  "array_index s =
     (if s \<noteq> [] \<and> list_all is_digit s \<and> (hd s \<noteq> CHR ''0'' \<or> length s = 1)
         \<and> decimal_value s < 4294967295
      then Some (decimal_value s) else None)"

text \<open>
  \<open>current[part]\<close> as a read. An object yields its own property, an array its element
  at an index, its length or its own named property; a name that is not an own property
  is looked up in the prototype, where \<open>__proto__\<close> yields the prototype itself; what is
  not there either reads as \<open>undefined\<close>. A read on \<open>undefined\<close> or \<open>null\<close> throws.
\<close>

fun prop_get :: "jsval \<Rightarrow> string \<Rightarrow> jsval outcome" where
  "prop_get (Obj ps) k =
     Returns (case map_of ps k of
                Some v \<Rightarrow> v
              | None \<Rightarrow> if k = ''__proto__'' then ObjectPrototype else object_member k)"
| "prop_get (Arr xs nps) k =
     Returns (case array_index k of
                Some i \<Rightarrow> if i < length xs then xs ! i else Undefined
              | None \<Rightarrow>
                  if k = ''length'' then Num (Finite (of_nat (length xs)))
                  else (case map_of nps k of
                          Some v \<Rightarrow> v
                        | None \<Rightarrow> if k = ''__proto__'' then ArrayPrototype
                                  else array_member k))"
| "prop_get ObjectPrototype k = Returns (object_member k)"
| "prop_get ArrayPrototype k = Returns (array_member k)"
| "prop_get Undefined k = Throws TypeError"
| "prop_get Null k = Throws TypeError"
| "prop_get _ k = Unmodelled"

text \<open>
  An object whose \<open>toJSON\<close> is a function: \<open>JSON.stringify\<close> calls it in place of
  serialising the object.
\<close>

definition callable_toJSON :: "jsval \<Rightarrow> bool" where
  "callable_toJSON v \<longleftrightarrow>
     typeof v = ''object'' \<and> v \<noteq> Null \<and>
     (case prop_get v ''toJSON'' of Returns f \<Rightarrow> is_function f | _ \<Rightarrow> False)"

text \<open>
  Assignment of a value to the \<open>length\<close> of an array: the value is converted to a number,
  which must be an integer in the range of an array length; the array is truncated or
  padded with holes.
\<close>

definition resize :: "jsval list \<Rightarrow> nat \<Rightarrow> jsval list" where
  "resize xs n = take n xs @ replicate (n - length xs) Undefined"

fun set_length :: "jsval list \<Rightarrow> jsval \<Rightarrow> jsval list outcome" where
  "set_length xs (Num (Finite q)) =
     (if 0 \<le> q \<and> q < 4294967296 \<and> of_int \<lfloor>q\<rfloor> = q
      then Returns (resize xs (nat \<lfloor>q\<rfloor>)) else Throws RangeError)"
| "set_length xs (Num _) = Throws RangeError"
| "set_length xs Undefined = Throws RangeError"
| "set_length xs Null = Returns (resize xs 0)"
| "set_length xs (Bool b) = Returns (resize xs (if b then 1 else 0))"
| "set_length xs (Obj ps) =
     (if map_of ps ''valueOf'' = None \<and> map_of ps ''toString'' = None
      then Throws RangeError else Unmodelled)"
| "set_length xs _ = Unmodelled"

text \<open>
  \<open>node.__proto__ = value\<close> where \<open>__proto__\<close> is not an own property of the node: the
  assignment reaches the setter that \<open>Object.prototype\<close> defines. The setter adds no
  property; when the value is an object or \<open>null\<close> it makes the value the prototype of the
  node, and otherwise it does nothing. The assignment is the last thing \<open>_findAndSet\<close>
  does, so the new prototype shows only in the serialisation that follows, and there
  only if it gives the node a \<open>toJSON\<close> function, or if the node is an array with a hole,
  which is then read in the new prototype.
\<close>

definition set_prototype :: "jsval \<Rightarrow> jsval \<Rightarrow> jsval outcome" where
  "set_prototype node v =
     (if callable_toJSON v \<or>
         (is_object v \<and> (case node of Arr xs nps \<Rightarrow> Undefined \<in> set xs | _ \<Rightarrow> False))
      then Unmodelled else Returns node)"

text \<open>
  The elements of an array after the assignment of a value at an index: within the
  array the element is replaced, beyond it the array grows, with holes up to the index.
\<close>

definition put_at :: "jsval list \<Rightarrow> nat \<Rightarrow> jsval \<Rightarrow> jsval list" where
  "put_at xs i v =
     (if i < length xs then xs[i := v] else xs @ replicate (i - length xs) Undefined @ [v])"

text \<open>
  \<open>current[part] = value\<close>. A name that is not an own property and that the prototype
  holds as a function becomes an own property. The prototype of \<open>Object.prototype\<close> cannot
  be changed: the setter of \<open>__proto__\<close> throws there when the value is an object. The
  code is strict-mode code (a class body), where the assignment to a property of a
  primitive value throws.
\<close>

fun prop_set :: "jsval \<Rightarrow> string \<Rightarrow> jsval \<Rightarrow> jsval outcome" where
  "prop_set (Obj ps) k v =
     (if map_of ps k = None \<and> k = ''__proto__'' then set_prototype (Obj ps) v
      else Returns (Obj (AList.update k v ps)))"
| "prop_set (Arr xs nps) k v =
     (case array_index k of
        Some i \<Rightarrow> Returns (Arr (put_at xs i v) nps)
      | None \<Rightarrow>
          if k = ''length'' then bind (set_length xs v) (\<lambda>ys. Returns (Arr ys nps))
          else if map_of nps k = None \<and> k = ''__proto__''
          then set_prototype (Arr xs nps) v
          else Returns (Arr xs (AList.update k v nps)))"
| "prop_set ObjectPrototype k v =
     (if k = ''__proto__''
      then (if is_object v then Throws TypeError else Returns ObjectPrototype)
      else Unmodelled)"
| "prop_set ArrayPrototype k v =
     (if k = ''__proto__'' \<and> \<not> is_object v \<and> v \<noteq> Null then Returns ArrayPrototype
      else Unmodelled)"
| "prop_set (Builtin f) k v = Unmodelled"
| "prop_set _ k v = Throws TypeError"

text \<open>\<open>delete current[part]\<close>: it removes an own property, and nothing of what is inherited.\<close>

fun prop_delete :: "jsval \<Rightarrow> string \<Rightarrow> jsval outcome" where
  "prop_delete (Obj ps) k = Returns (Obj (AList.delete k ps))"
| "prop_delete (Arr xs nps) k =
     (case array_index k of
        Some i \<Rightarrow> Returns (Arr (if i < length xs then xs[i := Undefined] else xs) nps)
      | None \<Rightarrow>
          if k = ''length'' then Throws TypeError
          else Returns (Arr xs (AList.delete k nps)))"
| "prop_delete Undefined k = Throws TypeError"
| "prop_delete Null k = Throws TypeError"
| "prop_delete _ k = Unmodelled"

text \<open>
  The engine mutates the nodes of the tree in place: a parent holds a reference to its
  child, so what is done to the child shows in the parent. In this development a node is
  a value, and the parent is rebuilt around the new state of the child. A child that was
  reached through the prototype chain is no property of the parent, which stays as it
  is.
\<close>

fun replace_child :: "jsval \<Rightarrow> string \<Rightarrow> jsval \<Rightarrow> jsval" where
  "replace_child (Obj ps) k c =
     (if map_of ps k = None then Obj ps else Obj (AList.update k c ps))"
| "replace_child (Arr xs nps) k c =
     (case array_index k of
        Some i \<Rightarrow> Arr (xs[i := c]) nps
      | None \<Rightarrow> if map_of nps k = None then Arr xs nps
                else Arr xs (AList.update k c nps))"
| "replace_child v k c = v"

subsection \<open>Serialisation\<close>

text \<open>
  \<open>JSON.stringify\<close> followed by \<open>JSON.parse\<close>: what a document written to the file reads
  back as. A number that is not finite, and \<open>undefined\<close> or a function as an element of
  an array, become \<open>null\<close>; a property whose value is \<open>undefined\<close> or a function, and the
  named properties of an array, are left out. Of the two prototypes the own enumerable
  properties are written, and there is none.
\<close>

fun json_value :: "jsval \<Rightarrow> jsval"
  and json_elems :: "jsval list \<Rightarrow> jsval list"
  and json_props :: "(string \<times> jsval) list \<Rightarrow> (string \<times> jsval) list" where
  "json_value Undefined = Null"
| "json_value Null = Null"
| "json_value (Bool b) = Bool b"
| "json_value (Num (Finite q)) = Num (Finite q)"
| "json_value (Num NaN) = Null"
| "json_value (Num PosInf) = Null"
| "json_value (Num NegInf) = Null"
| "json_value (Str s) = Str s"
| "json_value (Arr xs nps) = Arr (json_elems xs) []"
| "json_value (Obj ps) = Obj (json_props ps)"
| "json_value (Builtin f) = Null"
| "json_value ObjectPrototype = Obj []"
| "json_value ArrayPrototype = Arr [] []"
| "json_elems [] = []"
| "json_elems (x # xs) = json_value x # json_elems xs"
| "json_props [] = []"
| "json_props ((k, v) # ps) =
     (if v = Undefined \<or> is_function v then json_props ps
      else (k, json_value v) # json_props ps)"

text \<open>
  Whether the serialisation of a value comes upon an object or an array whose \<open>toJSON\<close>
  is a function.
\<close>

fun calls_toJSON :: "jsval \<Rightarrow> bool"
  and calls_elems :: "jsval list \<Rightarrow> bool"
  and calls_props :: "(string \<times> jsval) list \<Rightarrow> bool" where
  "calls_toJSON (Obj ps) = (callable_toJSON (Obj ps) \<or> calls_props ps)"
| "calls_toJSON (Arr xs nps) = (callable_toJSON (Arr xs nps) \<or> calls_elems xs)"
| "calls_toJSON Undefined = False"
| "calls_toJSON Null = False"
| "calls_toJSON (Bool b) = False"
| "calls_toJSON (Num n) = False"
| "calls_toJSON (Str s) = False"
| "calls_toJSON (Builtin f) = False"
| "calls_toJSON ObjectPrototype = False"
| "calls_toJSON ArrayPrototype = False"
| "calls_elems [] = False"
| "calls_elems (x # xs) = (calls_toJSON x \<or> calls_elems xs)"
| "calls_props [] = False"
| "calls_props ((k, v) # ps) = (calls_toJSON v \<or> calls_props ps)"

text \<open>
  \<open>JSON.stringify\<close> of \<open>undefined\<close> or of a function is not a string, but \<open>undefined\<close>
  (\<open>None\<close>).
\<close>

definition stringify :: "jsval \<Rightarrow> jsval option outcome" where
  "stringify v =
     (if calls_toJSON v then Unmodelled
      else Returns (if v = Undefined \<or> is_function v then None else Some (json_value v)))"

section \<open>Key paths\<close>

text \<open>
  The separator is a single punctuation character: the constructor of the facade
  \<open>NopeDB\<close> accepts nothing else.
\<close>

fun startsWith :: "string \<Rightarrow> char \<Rightarrow> bool" where
  "startsWith [] sep = False"
| "startsWith (c # cs) sep = (c = sep)"

definition endsWith :: "string \<Rightarrow> char \<Rightarrow> bool" where
  "endsWith s sep = (s \<noteq> [] \<and> last s = sep)"

text \<open>\<open>id.includes(separator + separator)\<close>\<close>

fun includes_twice :: "string \<Rightarrow> char \<Rightarrow> bool" where
  "includes_twice (a # b # cs) sep = ((a = sep \<and> b = sep) \<or> includes_twice (b # cs) sep)"
| "includes_twice _ sep = False"

definition validateID :: "char \<Rightarrow> string \<Rightarrow> unit outcome" where
  "validateID sep ident =
     (if ident = [] \<or> startsWith ident sep \<or> endsWith ident sep \<or> includes_twice ident sep
      then Throws NonValidID else Returns ())"

text \<open>\<open>id.split(separator)\<close>\<close>

fun split :: "char \<Rightarrow> string \<Rightarrow> string list" where
  "split sep [] = [[]]"
| "split sep (c # cs) =
     (if c = sep then [] # split sep cs
      else (c # hd (split sep cs)) # tl (split sep cs))"

text \<open>\<open>current ?? null\<close>\<close>

fun or_null :: "jsval \<Rightarrow> jsval" where
  "or_null Undefined = Null"
| "or_null v = v"

text \<open>The loop of \<open>_find\<close> over the parts of the key, and \<open>_find\<close> itself.\<close>

fun find_loop :: "jsval \<Rightarrow> string list \<Rightarrow> jsval outcome" where
  "find_loop current [] = Returns (or_null current)"
| "find_loop current (part # rest) =
     (if typeof current \<noteq> ''object'' \<or> current = Null then Returns Null
      else bind (prop_get current part) (\<lambda>c. find_loop c rest))"

definition find_sm :: "char \<Rightarrow> jsval \<Rightarrow> string \<Rightarrow> jsval outcome" where
  "find_sm sep data ident =
     bind (validateID sep ident) (\<lambda>_. find_loop data (split sep ident))"

text \<open>
  The loop of \<open>_findAndSet\<close>: the last part is assigned to; before that, a child that is
  not an object is first overwritten with a fresh \<open>{}\<close>, and the walk goes on in the child.
\<close>

fun findAndSet_loop :: "jsval \<Rightarrow> string list \<Rightarrow> jsval \<Rightarrow> jsval outcome" where
  "findAndSet_loop current [] val = Returns current"
| "findAndSet_loop current [part] val = prop_set current part val"
| "findAndSet_loop current (part # rest) val =
     bind (prop_get current part) (\<lambda>child.
       if typeof child \<noteq> ''object'' \<or> child = Null
       then bind (prop_set current part (Obj [])) (\<lambda>current'.
              bind (findAndSet_loop (Obj []) rest val) (\<lambda>child'.
                Returns (replace_child current' part child')))
       else bind (findAndSet_loop child rest val) (\<lambda>child'.
              Returns (replace_child current part child')))"

definition findAndSet :: "char \<Rightarrow> jsval \<Rightarrow> string \<Rightarrow> jsval \<Rightarrow> jsval outcome" where
  "findAndSet sep data ident val =
     bind (validateID sep ident) (\<lambda>_. findAndSet_loop data (split sep ident) val)"

text \<open>
  The loop of \<open>delete\<close>: \<open>None\<close> is its \<open>return false\<close>, \<open>Some\<close> the document it goes on
  to write.
\<close>

fun delete_loop :: "jsval \<Rightarrow> string list \<Rightarrow> jsval option outcome" where
  "delete_loop current [] = Returns (Some current)"
| "delete_loop current (part # rest) =
     (if typeof current \<noteq> ''object'' \<or> current = Null then Returns None
      else if rest = [] then
        bind (prop_get current part) (\<lambda>v.
          if v = Undefined then Returns None
          else bind (prop_delete current part) (\<lambda>c. Returns (Some c)))
      else
        bind (prop_get current part) (\<lambda>child.
          bind (delete_loop child rest) (\<lambda>r.
            case r of
              None \<Rightarrow> Returns None
            | Some child' \<Rightarrow> Returns (Some (replace_child current part child')))))"

section \<open>The file system\<close>

text \<open>
  A path holds no file, a file whose text is not JSON, a file whose text parses to a
  value, or it is one on which every access fails with an error other than \<open>ENOENT\<close>.
  The world is the file system and the trace of the accesses made to it.
\<close>

type_synonym path = string

datatype fstate = Missing | Faulty | Malformed string | Wellformed jsval

datatype io_event = AccessFile path | ReadFile path | WriteFile path

record world =
  fs :: "path \<Rightarrow> fstate"
  trace :: "io_event list"

type_synonym 'a task = "world \<Rightarrow> 'a outcome \<times> world"

definition lift :: "'a outcome \<Rightarrow> 'a task" where
  "lift r w = (r, w)"

definition bind_io :: "'a task \<Rightarrow> ('a \<Rightarrow> 'b task) \<Rightarrow> 'b task" where
  "bind_io m f w =
     (case m w of
        (Returns x, w') \<Rightarrow> f x w'
      | (Throws e, w') \<Rightarrow> (Throws e, w')
      | (Unmodelled, w') \<Rightarrow> (Unmodelled, w'))"

text \<open>\<open>fs.writeFile(p, JSON.stringify(data, null, spaces))\<close>\<close>

definition write_file :: "path \<Rightarrow> jsval \<Rightarrow> unit task" where
  "write_file p data w =
     (case stringify data of
        Returns None \<Rightarrow> (Throws TypeError, w)
      | Returns (Some j) \<Rightarrow>
          (let w1 = w\<lparr>trace := trace w @ [WriteFile p]\<rparr>
           in if fs w p = Faulty then (Throws FsError, w1)
              else (Returns (), w1\<lparr>fs := (fs w)(p := Wellformed j)\<rparr>))
      | Throws e \<Rightarrow> (Throws e, w)
      | Unmodelled \<Rightarrow> (Unmodelled, w))"

section \<open>The storage manager\<close>

record settings =
  "file" :: path
  spaces :: nat
  separator :: char

record clearOptions =
  confirm :: bool

definition "write" :: "settings \<Rightarrow> jsval \<Rightarrow> unit task" where
  "write this data = write_file (file this) data"

definition read :: "settings \<Rightarrow> jsval task" where
  "read this w =
     (let w1 = w\<lparr>trace := trace w @ [ReadFile (file this)]\<rparr>
      in case fs w (file this) of
           Wellformed v \<Rightarrow> (Returns v, w1)
         | Missing \<Rightarrow> bind_io (write this (Obj [])) (\<lambda>_. lift (Returns (Obj []))) w1
         | Malformed _ \<Rightarrow> (Throws ParseError, w1)
         | Faulty \<Rightarrow> (Throws ReadError, w1))"

text \<open>The task that the constructor enqueues.\<close>

definition init :: "settings \<Rightarrow> unit task" where
  "init this w =
     (let w1 = w\<lparr>trace := trace w @ [AccessFile (file this)]\<rparr>
      in case fs w (file this) of
           Missing \<Rightarrow> write this (Obj []) w1
         | Faulty \<Rightarrow> (Throws AccessError, w1)
         | _ \<Rightarrow> (Returns (), w1))"

text \<open>
  The public operations: each is the body of the task that the method hands to
  \<open>_enqueue\<close>, a function of the world that is run as a whole (the queue runs the
  bodies one at a time). The names \<open>set\<close>, \<open>all\<close> and \<open>_find\<close> carry the suffix \<open>_sm\<close>
  here. The checks on the type of an argument that the signature of a method already
  fixes (\<open>typeof id\<close>, \<open>typeof filePath\<close>) are left to the types; the value of \<open>add\<close> and
  \<open>subtract\<close> is any value, as the methods test it themselves.
\<close>

definition set_sm :: "settings \<Rightarrow> string \<Rightarrow> jsval \<Rightarrow> jsval task" where
  "set_sm this ident val =
     (if ident = [] then lift (Throws UndefinedID)
      else if val = Undefined then lift (Throws UndefinedValue)
      else bind_io (read this) (\<lambda>data.
             bind_io (lift (findAndSet (separator this) data ident val)) (\<lambda>data'.
               bind_io (write this data') (\<lambda>_. lift (Returns val)))))"

definition get :: "settings \<Rightarrow> string \<Rightarrow> jsval task" where
  "get this ident =
     (if ident = [] then lift (Throws UndefinedID)
      else bind_io (read this) (\<lambda>data. lift (find_sm (separator this) data ident)))"

definition add :: "settings \<Rightarrow> string \<Rightarrow> jsval \<Rightarrow> jsval task" where
  "add this ident val =
     (if ident = [] then lift (Throws UndefinedID)
      else if val = Undefined then lift (Throws UndefinedValue)
      else if typeof val \<noteq> ''number'' then lift (Throws MustBeANumber)
      else bind_io (read this) (\<lambda>data.
             bind_io (lift (find_sm (separator this) data ident)) (\<lambda>currentVal.
               if currentVal \<noteq> Null \<and> typeof currentVal \<noteq> ''number''
               then lift (Throws DataNotANumber)
               else
                 (let newVal = Num (fl_add (case currentVal of Num n \<Rightarrow> or_zero n
                                                | _ \<Rightarrow> Finite 0)
                                           (case val of Num v \<Rightarrow> v | _ \<Rightarrow> NaN))
                  in bind_io (lift (findAndSet (separator this) data ident newVal)) (\<lambda>data'.
                       bind_io (write this data') (\<lambda>_. lift (Returns newVal)))))))"

definition subtract :: "settings \<Rightarrow> string \<Rightarrow> jsval \<Rightarrow> jsval task" where
  "subtract this ident val =
     (if typeof val \<noteq> ''number'' then lift (Throws MustBeANumber)
      else add this ident (case val of Num v \<Rightarrow> Num (fl_neg v) | _ \<Rightarrow> val))"

definition all_sm :: "settings \<Rightarrow> jsval task" where
  "all_sm this = read this"

definition has :: "settings \<Rightarrow> string \<Rightarrow> bool task" where
  "has this ident =
     (if ident = [] then lift (Throws UndefinedID)
      else bind_io (read this) (\<lambda>data.
             bind_io (lift (find_sm (separator this) data ident)) (\<lambda>v.
               lift (Returns (v \<noteq> Null)))))"

definition delete :: "settings \<Rightarrow> string \<Rightarrow> bool task" where
  "delete this ident =
     (if ident = [] then lift (Throws UndefinedID)
      else bind_io (read this) (\<lambda>data.
             bind_io (lift (delete_loop data (split (separator this) ident))) (\<lambda>r.
               case r of
                 None \<Rightarrow> lift (Returns False)
               | Some data' \<Rightarrow> bind_io (write this data') (\<lambda>_. lift (Returns True)))))"

definition clear :: "settings \<Rightarrow> clearOptions option \<Rightarrow> bool task" where
  "clear this options =
     (if map_option confirm options \<noteq> Some True then lift (Throws ClearConfirm)
      else bind_io (write this (Obj [])) (\<lambda>_. lift (Returns True)))"

text \<open>
  \<open>arr.push(value)\<close>, on what \<open>Array.isArray\<close> accepts: an array of the document, or
  \<open>Array.prototype\<close>, which the push would change.
\<close>

fun array_push :: "jsval \<Rightarrow> jsval \<Rightarrow> jsval outcome" where
  "array_push (Arr xs nps) v = Returns (Arr (xs @ [v]) nps)"
| "array_push a v = Unmodelled"

definition push :: "settings \<Rightarrow> string \<Rightarrow> jsval \<Rightarrow> jsval task" where
  "push this ident val =
     (if ident = [] then lift (Throws UndefinedID)
      else if val = Undefined then lift (Throws UndefinedValue)
      else bind_io (read this) (\<lambda>data.
             bind_io (lift (find_sm (separator this) data ident)) (\<lambda>found.
               if found \<noteq> Null \<and> found \<noteq> Undefined \<and> \<not> isArray found
               then lift (Throws MustBeArray)
               else
                 bind_io (lift (array_push (if found = Null \<or> found = Undefined
                                            then Arr [] [] else found) val)) (\<lambda>arr.
                   bind_io (lift (findAndSet (separator this) data ident arr)) (\<lambda>data'.
                     bind_io (write this data') (\<lambda>_. lift (Returns arr)))))))"

text \<open>\<open>filePath.endsWith(".json")\<close>\<close>

definition endsWith_json :: "string \<Rightarrow> bool" where
  "endsWith_json p = (5 \<le> length p \<and> drop (length p - 5) p = ''.json'')"

definition backup :: "settings \<Rightarrow> path \<Rightarrow> bool task" where
  "backup this filePath =
     (if filePath = [] then lift (Throws InvalidBackupPath)
      else if \<not> endsWith_json filePath then lift (Throws BackupExtension)
      else bind_io (read this) (\<lambda>data.
             bind_io (write_file filePath data) (\<lambda>_. lift (Returns True))))"

definition loadBackup :: "settings \<Rightarrow> path \<Rightarrow> bool task" where
  "loadBackup this filePath =
     (if filePath = [] then lift (Throws InvalidBackupPath)
      else (\<lambda>w.
        (let w1 = w\<lparr>trace := trace w @ [ReadFile filePath]\<rparr>
         in case fs w filePath of
              Wellformed backupData \<Rightarrow>
                bind_io (write this backupData) (\<lambda>_. lift (Returns True)) w1
            | _ \<Rightarrow> (Throws BackupLoadError, w1))))"

section \<open>The operation queue\<close>

text \<open>
  \<open>_enqueue\<close> chains promises: \<open>this.queue.catch(() => { }).then(task)\<close> makes two
  promises, the one that \<open>catch\<close> returns and the one that \<open>then\<close> returns, and the
  second becomes the new \<open>this.queue\<close> and is returned to the caller. A promise is named
  after the call of \<open>_enqueue\<close> that made it: \<open>Caught i\<close> and \<open>Next i\<close> for the call
  number \<open>i\<close>, and \<open>Initial\<close> for the \<open>Promise.resolve()\<close> of the constructor.
\<close>

datatype pid = Initial | Caught nat | Next nat

datatype pstate = Pending | Fulfilled | Rejected

datatype handler = CatchNoop | ThenTask nat

text \<open>
  What matters of a task for the order of execution: its body starts, is resumed a number
  of times after it has awaited an input or output, and ends by returning or by throwing.
\<close>

record body =
  steps :: nat
  fails :: bool

datatype event = Start nat | Step nat | End nat

text \<open>
  The state of the event loop as far as the queue goes: the state of every promise, the
  reactions registered by \<open>catch\<close> and \<open>then\<close> that have not run yet, the field
  \<open>this.queue\<close>, the tasks enqueued so far, the bodies that have started and not ended
  (with the number of resumptions they have left), and the events of the bodies so far.
\<close>

record queue_state =
  promise :: "pid \<Rightarrow> pstate"
  reactions :: "(pid \<times> handler \<times> pid) set"
  queue :: pid
  bodies :: "body list"
  running :: "(nat \<times> nat \<times> pid) set"
  events :: "event list"

text \<open>The constructor: \<open>this.queue = Promise.resolve()\<close>.\<close>

definition fresh_queue :: queue_state where
  "fresh_queue =
     \<lparr>promise = (\<lambda>p. if p = Initial then Fulfilled else Pending), reactions = {},
      queue = Initial, bodies = [], running = {}, events = []\<rparr>"

text \<open>
  \<open>const nextTask = this.queue.catch(() => { }).then(task); this.queue = nextTask;
  return nextTask\<close>
\<close>

definition enqueue :: "body \<Rightarrow> queue_state \<Rightarrow> pid \<times> queue_state" where
  "enqueue task s =
     (let i = length (bodies s); caught = Caught i; nextTask = Next i
      in (nextTask,
          s\<lparr>reactions := reactions s \<union>
                 {(queue s, CatchNoop, caught), (caught, ThenTask i, nextTask)},
            queue := nextTask,
            bodies := bodies s @ [task]\<rparr>))"

definition verdict :: "body \<Rightarrow> pstate" where
  "verdict b = (if fails b then Rejected else Fulfilled)"

text \<open>
  The steps of the event loop, in any order that the loop may take them. A caller
  enqueues a task. A reaction of \<open>catch\<close> runs once its promise is settled: fulfilled, the
  value passes through; rejected, the handler \<open>() => { }\<close> returns; either way the
  promise of \<open>catch\<close> is fulfilled. A reaction of \<open>then\<close> runs once its promise is settled:
  fulfilled, it calls the task, whose body starts; rejected, the task is not called and
  the promise of \<open>then\<close> is rejected. A body that has started is resumed, and ends: the
  promise of \<open>then\<close> is then settled as the body ends.
\<close>

inductive step :: "queue_state \<Rightarrow> queue_state \<Rightarrow> bool" where
  enq: "step s (snd (enqueue task s))"
| caught:
    "(src, CatchNoop, tgt) \<in> reactions s \<Longrightarrow> promise s src \<noteq> Pending \<Longrightarrow>
     step s (s\<lparr>promise := (promise s)(tgt := Fulfilled),
               reactions := reactions s - {(src, CatchNoop, tgt)}\<rparr>)"
| start:
    "(src, ThenTask i, tgt) \<in> reactions s \<Longrightarrow> promise s src = Fulfilled \<Longrightarrow>
     step s (s\<lparr>reactions := reactions s - {(src, ThenTask i, tgt)},
               running := running s \<union> {(i, steps (bodies s ! i), tgt)},
               events := events s @ [Start i]\<rparr>)"
| skip:
    "(src, ThenTask i, tgt) \<in> reactions s \<Longrightarrow> promise s src = Rejected \<Longrightarrow>
     step s (s\<lparr>promise := (promise s)(tgt := Rejected),
               reactions := reactions s - {(src, ThenTask i, tgt)}\<rparr>)"
| work:
    "(i, Suc r, tgt) \<in> running s \<Longrightarrow>
     step s (s\<lparr>running := (running s - {(i, Suc r, tgt)}) \<union> {(i, r, tgt)},
               events := events s @ [Step i]\<rparr>)"
| finish:
    "(i, 0, tgt) \<in> running s \<Longrightarrow>
     step s (s\<lparr>promise := (promise s)(tgt := verdict (bodies s ! i)),
               running := running s - {(i, 0, tgt)},
               events := events s @ [End i]\<rparr>)"

inductive reachable :: "queue_state \<Rightarrow> bool" where
  fresh: "reachable fresh_queue"
| after: "reachable s \<Longrightarrow> step s s' \<Longrightarrow> reachable s'"

text \<open>
  The events of one body run from start to end, and of the bodies run one after the other
  in the order of their enqueueing.
\<close>

definition run_of :: "nat \<Rightarrow> body \<Rightarrow> event list" where
  "run_of i b = Start i # replicate (steps b) (Step i) @ [End i]"

definition schedule_upto :: "body list \<Rightarrow> nat \<Rightarrow> event list" where
  "schedule_upto bs k = concat (map (\<lambda>i. run_of i (bs ! i)) [0..<k])"

definition schedule :: "body list \<Rightarrow> event list" where
  "schedule bs = schedule_upto bs (length bs)"

section \<open>Notions used to state the properties\<close>

text \<open>
  The node that a list of parts leads to, when every node on the way is an object or an
  array whose property can be read.
\<close>

fun walk :: "jsval \<Rightarrow> string list \<Rightarrow> jsval outcome" where
  "walk current [] = Returns current"
| "walk current (part # rest) = bind (prop_get current part) (\<lambda>c. walk c rest)"

text \<open>
  What a map or an array binds to a name itself, and what it inherits under a name from
  its prototype: \<open>current[part]\<close> is the first where there is one, and the second
  otherwise.
\<close>

fun own_property :: "jsval \<Rightarrow> string \<Rightarrow> jsval option" where
  "own_property (Obj ps) k = map_of ps k"
| "own_property (Arr xs nps) k =
     (case array_index k of
        Some i \<Rightarrow> if i < length xs then Some (xs ! i) else None
      | None \<Rightarrow> if k = ''length'' then Some (Num (Finite (of_nat (length xs))))
                else map_of nps k)"
| "own_property v k = None"

fun inherited_member :: "jsval \<Rightarrow> string \<Rightarrow> jsval" where
  "inherited_member (Obj ps) k = (if k = ''__proto__'' then ObjectPrototype else object_member k)"
| "inherited_member (Arr xs nps) k =
     (if k = ''__proto__'' then ArrayPrototype else array_member k)"
| "inherited_member v k = Undefined"

text \<open>
  \<open>resolveAndSet\<close> in the words of the specification, on a document that is a map:
  for every intermediate segment, a node that is not a map is overwritten with a fresh
  empty map before descending; the final segment is assigned the value.
\<close>

fun spec_resolveAndSet ::
    "(string \<times> jsval) list \<Rightarrow> string list \<Rightarrow> jsval \<Rightarrow> (string \<times> jsval) list" where
  "spec_resolveAndSet m [] v = m"
| "spec_resolveAndSet m [k] v = AList.update k v m"
| "spec_resolveAndSet m (k # ks) v =
     AList.update k
       (Obj (spec_resolveAndSet (case map_of m k of Some (Obj c) \<Rightarrow> c | _ \<Rightarrow> []) ks v)) m"

text \<open>
  No intermediate segment of the path is bound to an array in the map: each is bound to
  a map, or to what \<open>typeof\<close> does not call an object, or to \<open>null\<close>, or is not bound. (A
  prototype as the value of a property counts as an array here; no document read from
  a file holds one.)
\<close>

fun array_free :: "(string \<times> jsval) list \<Rightarrow> string list \<Rightarrow> bool" where
  "array_free m [] = True"
| "array_free m [k] = True"
| "array_free m (k # ks) =
     (case map_of m k of
        Some (Obj c) \<Rightarrow> array_free c ks
      | Some v \<Rightarrow> typeof v \<noteq> ''object'' \<or> v = Null
      | None \<Rightarrow> True)"


text \<open>An object or an array of a document.\<close>

fun is_node :: "jsval \<Rightarrow> bool" where
  "is_node (Obj ps) = True"
| "is_node (Arr xs nps) = True"
| "is_node v = False"

text \<open>
  A value that a document keeps when it is written to the file: not \<open>undefined\<close>, not a
  function, and serialised without a call of a \<open>toJSON\<close>.
\<close>

definition kept :: "jsval \<Rightarrow> bool" where
  "kept v \<longleftrightarrow> v \<noteq> Undefined \<and> \<not> is_function v \<and> \<not> calls_toJSON v"

text \<open>
  The values that \<open>JSON.parse\<close> yields: \<open>null\<close>, booleans, numbers, strings, and arrays
  and maps of such values.
\<close>

fun json_data :: "jsval \<Rightarrow> bool"
  and json_data_elems :: "jsval list \<Rightarrow> bool"
  and json_data_props :: "(string \<times> jsval) list \<Rightarrow> bool" where
  "json_data Null = True"
| "json_data (Bool b) = True"
| "json_data (Num n) = (n \<noteq> NaN)"
| "json_data (Str s) = True"
| "json_data (Arr xs nps) = (nps = [] \<and> json_data_elems xs)"
| "json_data (Obj ps) = json_data_props ps"
| "json_data Undefined = False"
| "json_data (Builtin f) = False"
| "json_data ObjectPrototype = False"
| "json_data ArrayPrototype = False"
| "json_data_elems [] = True"
| "json_data_elems (x # xs) = (json_data x \<and> json_data_elems xs)"
| "json_data_props [] = True"
| "json_data_props ((k, v) # ps) = (json_data v \<and> json_data_props ps)"

text \<open>
  The states that the queue can be in: the tasks before \<open>k\<close> have run to their end, the
  task \<open>k\<close> waits for the promise before it, is ready to start, or runs; the tasks after
  \<open>k\<close> wait.
\<close>

datatype phase = Waiting | Ready | Busy nat

fun tail_of :: "nat \<Rightarrow> pid" where
  "tail_of 0 = Initial"
| "tail_of (Suc i) = Next i"

fun catch_from :: "nat \<Rightarrow> phase \<Rightarrow> nat" where
  "catch_from k Waiting = k"
| "catch_from k _ = Suc k"

fun then_from :: "nat \<Rightarrow> phase \<Rightarrow> nat" where
  "then_from k (Busy r) = Suc k"
| "then_from k _ = k"

fun expected_promise :: "body list \<Rightarrow> nat \<Rightarrow> phase \<Rightarrow> pid \<Rightarrow> pstate" where
  "expected_promise bs k ph Initial = Fulfilled"
| "expected_promise bs k ph (Caught i) =
     (if i < k \<or> (i = k \<and> ph \<noteq> Waiting) then Fulfilled else Pending)"
| "expected_promise bs k ph (Next i) = (if i < k then verdict (bs ! i) else Pending)"

definition expected_reactions :: "nat \<Rightarrow> nat \<Rightarrow> phase \<Rightarrow> (pid \<times> handler \<times> pid) set" where
  "expected_reactions n k ph =
     {(tail_of i, CatchNoop, Caught i) | i. catch_from k ph \<le> i \<and> i < n} \<union>
     {(Caught i, ThenTask i, Next i) | i. then_from k ph \<le> i \<and> i < n}"

definition canon :: "body list \<Rightarrow> nat \<Rightarrow> phase \<Rightarrow> queue_state" where
  "canon bs k ph =
     \<lparr>promise = expected_promise bs k ph,
      reactions = expected_reactions (length bs) k ph,
      queue = tail_of (length bs),
      bodies = bs,
      running = (case ph of Busy r \<Rightarrow> {(k, r, Next k)} | _ \<Rightarrow> {}),
      events = schedule_upto bs k @
        (case ph of Busy r \<Rightarrow> Start k # replicate (steps (bs ! k) - r) (Step k) | _ \<Rightarrow> [])\<rparr>"

definition wf_phase :: "body list \<Rightarrow> nat \<Rightarrow> phase \<Rightarrow> bool" where
  "wf_phase bs k ph \<longleftrightarrow>
     k \<le> length bs \<and> (k = length bs \<longrightarrow> ph = Waiting) \<and>
     (\<forall>r. ph = Busy r \<longrightarrow> r \<le> steps (bs ! k))"

text \<open>
  A store on the separator \<open>.\<close>, the world in which its file is in a given state, and a
  world with one more file.
\<close>

definition db :: settings where
  "db = \<lparr>file = ''db.json'', spaces = 2, separator = CHR ''.''\<rparr>"

definition on_disk :: "settings \<Rightarrow> fstate \<Rightarrow> world" where
  "on_disk this st = \<lparr>fs = (\<lambda>p. if p = file this then st else Missing), trace = []\<rparr>"

definition with_file :: "world \<Rightarrow> path \<Rightarrow> fstate \<Rightarrow> world" where
  "with_file w p st = w\<lparr>fs := (fs w)(p := st)\<rparr>"

section \<open>Properties\<close>

subsection \<open>Auxiliary facts\<close>

lemma split_not_Nil: "split sep s \<noteq> []"
  by (induction s) auto

lemma bind_Returns_iff:
  "bind m f = Returns y \<longleftrightarrow> (\<exists>x. m = Returns x \<and> f x = Returns y)"
  by (cases m) auto

lemma typeof_number_iff: "typeof v = ''number'' \<longleftrightarrow> (\<exists>n. v = Num n)"
  by (cases v) auto

lemma prop_get_object:
  "typeof v = ''object'' \<Longrightarrow> v \<noteq> Null \<Longrightarrow> \<exists>c. prop_get v k = Returns c"
  by (cases v) auto

lemma prop_get_Returns_object:
  "prop_get v p = Returns c \<Longrightarrow> typeof v = ''object'' \<and> v \<noteq> Null"
  by (cases v) auto

lemma find_loop_Returns: "\<exists>r. find_loop v ps = Returns r"
proof (induction ps arbitrary: v)
  case Nil
  then show ?case by simp
next
  case (Cons p ps)
  show ?case
  proof (cases "typeof v \<noteq> ''object'' \<or> v = Null")
    case True
    then show ?thesis by auto
  next
    case False
    then obtain c where "prop_get v p = Returns c"
      using prop_get_object by blast
    with False Cons.IH[of c] show ?thesis by auto
  qed
qed

lemma find_loop_append:
  "walk v pre = Returns node \<Longrightarrow>
   find_loop v (pre @ rest) = find_loop node rest \<or> find_loop v (pre @ rest) = Returns Null"
proof (induction pre arbitrary: v)
  case Nil
  then show ?case by simp
next
  case (Cons p pre)
  then obtain c where c: "prop_get v p = Returns c" "walk c pre = Returns node"
    by (auto simp: bind_Returns_iff)
  show ?case
  proof (cases "typeof v \<noteq> ''object'' \<or> v = Null")
    case True
    then show ?thesis by auto
  next
    case False
    with c Cons.IH[OF c(2)] show ?thesis by auto
  qed
qed

lemma find_loop_walk:
  "walk v ps = Returns node \<Longrightarrow> find_loop v ps = Returns (or_null node)"
proof (induction ps arbitrary: v)
  case Nil
  then show ?case by simp
next
  case (Cons p ps)
  then obtain c where c: "prop_get v p = Returns c" "walk c ps = Returns node"
    by (auto simp: bind_Returns_iff)
  from prop_get_Returns_object[OF c(1)] c Cons.IH[OF c(2)] show ?case by auto
qed

lemma walk_append:
  "walk v pre = Returns node \<Longrightarrow> walk v (pre @ rest) = walk node rest"
  by (induction pre arbitrary: v) (auto simp: bind_Returns_iff)

lemma digits_not_member:
  "list_all is_digit k \<Longrightarrow> k \<noteq> [] \<Longrightarrow>
   k \<notin> set array_members \<and> k \<notin> set object_members \<and> k \<noteq> ''__proto__'' \<and>
   k \<noteq> ''length'' \<and> k \<noteq> ''constructor''"
  by (cases k) (auto simp: array_members_def object_members_def is_digit_def)

lemma array_index_not_member:
  "array_index k = Some i \<Longrightarrow> k \<noteq> ''__proto__'' \<and> array_member k = Undefined"
  using digits_not_member[of k]
  by (auto simp: array_index_def array_member_def object_member_def split: if_splits)

lemma prop_get_node:
  "is_node node \<Longrightarrow>
   prop_get node k =
     Returns (case own_property node k of Some v \<Rightarrow> v | None \<Rightarrow> inherited_member node k)"
  by (cases node) (auto simp: array_index_not_member split: option.splits)

text \<open>The names that a map or an array inherits a member under.\<close>

lemma constructor_member:
  "''constructor'' \<in> set object_members" "''constructor'' \<in> set array_members"
  "''length'' \<notin> set object_members" "''length'' \<notin> set array_members"
  by (simp_all add: object_members_def array_members_def)

lemma inherited_member_Undefined_iff:
  assumes "is_node node" "own_property node k = None"
  shows "inherited_member node k = Undefined \<longleftrightarrow>
           k \<noteq> ''__proto__'' \<and> k \<notin> set object_members \<and>
           (isArray node \<longrightarrow> k \<notin> set array_members)"
proof (cases node)
  case (Obj ps)
  then show ?thesis
    using constructor_member by (auto simp: object_member_def)
next
  case (Arr xs nps)
  with assms(2) have "k \<noteq> ''length''"
    by (auto simp: array_index_def is_digit_def split: option.splits if_splits)
  with Arr show ?thesis
    using constructor_member by (auto simp: object_member_def array_member_def)
qed (use assms in auto)

lemma bind_io_lift [simp]:
  "bind_io (lift (Returns x)) f = f x"
  "bind_io (lift (Throws e)) f = lift (Throws e)"
  "bind_io (lift Unmodelled) f = lift Unmodelled"
  by (auto simp: bind_io_def lift_def fun_eq_iff)

lemma bind_io_Returns: "m w = (Returns x, w') \<Longrightarrow> bind_io m f w = f x w'"
  by (simp add: bind_io_def)

lemma bind_io_Throws: "m w = (Throws e, w') \<Longrightarrow> bind_io m f w = (Throws e, w')"
  by (simp add: bind_io_def)

lemma object_member_toJSON [simp]:
  "object_member ''toJSON'' = Undefined" "array_member ''toJSON'' = Undefined"
  by (simp_all add: object_member_def array_member_def object_members_def array_members_def)

lemma array_index_toJSON [simp]: "array_index ''toJSON'' = None"
  by (simp add: array_index_def is_digit_def)

lemma callable_toJSON_Obj:
  "callable_toJSON (Obj ps) \<longleftrightarrow>
     (case map_of ps ''toJSON'' of Some f \<Rightarrow> is_function f | None \<Rightarrow> False)"
  by (simp add: callable_toJSON_def split: option.splits)

lemma callable_toJSON_Arr:
  "callable_toJSON (Arr xs nps) \<longleftrightarrow>
     (case map_of nps ''toJSON'' of Some f \<Rightarrow> is_function f | None \<Rightarrow> False)"
  by (simp add: callable_toJSON_def split: option.splits)

lemma stringify_Obj_Nil [simp]: "stringify (Obj []) = Returns (Some (Obj []))"
  by (simp add: stringify_def callable_toJSON_Obj)

lemma stringify_kept: "kept v \<Longrightarrow> stringify v = Returns (Some (json_value v))"
  by (simp add: stringify_def kept_def)


lemma read_Wellformed:
  "fs w (file this) = Wellformed v \<Longrightarrow>
   read this w = (Returns v, w\<lparr>trace := trace w @ [ReadFile (file this)]\<rparr>)"
  by (simp add: read_def)

lemma read_Malformed:
  "fs w (file this) = Malformed s \<Longrightarrow>
   read this w = (Throws ParseError, w\<lparr>trace := trace w @ [ReadFile (file this)]\<rparr>)"
  by (simp add: read_def)

lemma read_Missing:
  "fs w (file this) = Missing \<Longrightarrow>
   read this w = (Returns (Obj []),
      w\<lparr>trace := trace w @ [ReadFile (file this), WriteFile (file this)],
        fs := (fs w)(file this := Wellformed (Obj []))\<rparr>)"
  by (simp add: read_def write_def write_file_def bind_io_def lift_def)


lemma on_disk_simps [simp]:
  "fs (on_disk this st) p = (if p = file this then st else Missing)"
  "trace (on_disk this st) = []"
  by (simp_all add: on_disk_def)

lemma db_simps [simp]:
  "file db = ''db.json''"
  "separator db = CHR ''.''"
  by (simp_all add: db_def)


lemma read_readable:
  "fs w (file this) = Missing \<or> (\<exists>data. fs w (file this) = Wellformed data) \<Longrightarrow>
   \<exists>data. read this w = (Returns data, snd (read this w))"
  by (auto simp: read_Wellformed read_Missing)


lemma map_of_update_same [simp]: "map_of (AList.update k v m) k = Some v"
  by (simp add: update_conv')

lemma object_member_not_object:
  "k \<noteq> ''__proto__'' \<Longrightarrow> typeof (object_member k) \<noteq> ''object''"
  by (simp add: object_member_def)

lemma jsval_shape:
  obtains (obj) c where "v = Obj c" | (arr) xs nps where "v = Arr xs nps"
  | (proto) "v = ObjectPrototype \<or> v = ArrayPrototype"
  | (other) "typeof v \<noteq> ''object'' \<or> v = Null"
  by (cases v) auto

lemma array_free_Nil: "array_free [] ps"
proof (cases ps)
  case Nil
  then show ?thesis by simp
next
  case (Cons k ks)
  then show ?thesis by (cases ks) auto
qed

text \<open>On a map and a path free of arrays, the loop of \<open>_findAndSet\<close> computes the update
  that the specification describes.\<close>

lemma findAndSet_loop_spec:
  "array_free m ps \<Longrightarrow> ''__proto__'' \<notin> set ps \<Longrightarrow>
   findAndSet_loop (Obj m) ps v = Returns (Obj (spec_resolveAndSet m ps v))"
proof (induction m ps v rule: spec_resolveAndSet.induct)
  case (1 m v)
  then show ?case by simp
next
  case (2 m k v)
  then show ?case by auto
next
  case (3 m k k' ks v)
  let ?ks = "k' # ks"
  from 3(3) have kp: "k \<noteq> ''__proto__''" and ks: "''__proto__'' \<notin> set ?ks"
    by auto
  have IH: "findAndSet_loop (Obj c0) ?ks v = Returns (Obj (spec_resolveAndSet c0 ?ks v))"
    if "c0 = (case map_of m k of Some (Obj c) \<Rightarrow> c | _ \<Rightarrow> [])" and "array_free c0 ?ks" for c0
    using 3(1)[OF _ ks] that by simp
  have fresh: "findAndSet_loop (Obj []) ?ks v = Returns (Obj (spec_resolveAndSet [] ?ks v))"
    if "(case map_of m k of Some (Obj c) \<Rightarrow> c | _ \<Rightarrow> []) = []"
    using IH[of "[]"] that array_free_Nil by simp
  show ?case
  proof (cases "map_of m k")
    case None
    with fresh kp object_member_not_object[OF kp] show ?thesis by (simp add: update_conv')
  next
    case (Some child)
    show ?thesis
    proof (cases child rule: jsval_shape)
      case (obj c)
      with 3(2) Some have "array_free c ?ks" by simp
      with IH[of c] Some obj
      have "findAndSet_loop (Obj c) ?ks v = Returns (Obj (spec_resolveAndSet c ?ks v))"
        by simp
      with Some obj show ?thesis by simp
    next
      case (arr xs nps)
      with 3(2) Some show ?thesis by simp
    next
      case proto
      with 3(2) Some show ?thesis by auto
    next
      case other
      then have e: "(case child of Obj c \<Rightarrow> c | _ \<Rightarrow> []) = []"
        by (auto split: jsval.splits)
      with fresh Some
      have "findAndSet_loop (Obj []) ?ks v = Returns (Obj (spec_resolveAndSet [] ?ks v))"
        by simp
      with Some other e show ?thesis
        by auto
    qed
  qed
qed

lemma json_value_defined [simp]: "json_value x \<noteq> Undefined"
proof (cases x)
  case (Num n)
  then show ?thesis by (cases n) auto
qed auto

lemma json_value_not_function [simp]: "\<not> is_function (json_value x)"
proof (cases x)
  case (Num n)
  then show ?thesis by (cases n) auto
qed auto

lemma or_null_json_value [simp]: "or_null (json_value x) = json_value x"
  by (cases "json_value x") auto

lemma walk_after_set:
  "ps \<noteq> [] \<Longrightarrow> walk (Obj (spec_resolveAndSet m ps v)) ps = Returns v"
  by (induction m ps v rule: spec_resolveAndSet.induct) (auto simp: update_conv')

lemma walk_prefix_after_set:
  "ps = pre @ post \<Longrightarrow> post \<noteq> [] \<Longrightarrow>
   \<exists>c. walk (Obj (spec_resolveAndSet m ps v)) pre = Returns (Obj c)"
proof (induction m ps v arbitrary: pre rule: spec_resolveAndSet.induct)
  case (1 m v)
  then show ?case by simp
next
  case (2 m k v)
  then have "pre = []" by (cases pre) auto
  then show ?case by simp
next
  case (3 m k k' ks v)
  show ?case
  proof (cases pre)
    case Nil
    then show ?thesis by simp
  next
    case (Cons p pre')
    with 3(2) have p: "p = k" and ks: "k' # ks = pre' @ post" by auto
    from 3(1)[OF ks 3(3)] obtain c where
      "walk (Obj (spec_resolveAndSet (case map_of m k of Some (Obj c) \<Rightarrow> c | _ \<Rightarrow> [])
                (k' # ks) v)) pre' = Returns (Obj c)"
      by blast
    then have "walk (Obj (spec_resolveAndSet m (k # k' # ks) v)) (k # pre') = Returns (Obj c)"
      by (simp add: update_conv')
    with Cons p show ?thesis by blast
  qed
qed

lemma json_elems_length [simp]: "length (json_elems xs) = length xs"
  by (induction xs) auto






lemma is_node_json_value: "is_node c \<Longrightarrow> is_node (json_value c)"
  by (cases c) auto

lemma is_node_object: "is_node c \<Longrightarrow> typeof c = ''object'' \<and> c \<noteq> Null"
  by (cases c) auto















lemma json_data_props_map_of:
  "json_data_props ps \<Longrightarrow> map_of ps k = Some c \<Longrightarrow> json_data c"
  by (induction ps) (auto split: if_splits)

lemma json_data_not_function: "json_data v \<Longrightarrow> \<not> is_function v"
  by (cases v) auto

lemma json_data_calls:
  "json_data v \<Longrightarrow> \<not> calls_toJSON v"
  "json_data_elems xs \<Longrightarrow> \<not> calls_elems xs"
  "json_data_props ps \<Longrightarrow> \<not> calls_props ps"
proof (induction v and xs and ps rule: json_data_json_data_elems_json_data_props.induct)
  case (6 ps)
  then show ?case
    using json_data_props_map_of[of ps "''toJSON''"] json_data_not_function
    by (auto simp: callable_toJSON_Obj split: option.splits)
qed (auto simp: callable_toJSON_Arr)

lemma json_data_kept: "json_data v \<Longrightarrow> kept v"
  using json_data_calls(1) json_data_not_function by (auto simp: kept_def)

lemma json_data_json:
  "json_data (json_value v)"
  "json_data_elems (json_elems xs)"
  "json_data_props (json_props ps)"
  by (induction v and xs and ps rule: json_value_json_elems_json_props.induct) auto

lemma json_data_json_value [simp]: "json_data (json_value v)"
  by (rule json_data_json(1))

















subsection \<open>The operation queue\<close>

lemma schedule_upto_append:
  assumes "k \<le> length bs"
  shows "schedule_upto (bs @ [b]) k = schedule_upto bs k"
proof -
  have "map (\<lambda>i. run_of i ((bs @ [b]) ! i)) [0..<k] = map (\<lambda>i. run_of i (bs ! i)) [0..<k]"
    using assms by (intro map_cong) (auto simp: nth_append)
  then show ?thesis by (simp only: schedule_upto_def)
qed

lemma schedule_upto_Suc:
  "schedule_upto bs (Suc k) = schedule_upto bs k @ run_of k (bs ! k)"
  by (simp add: schedule_upto_def)

lemma expected_promise_append:
  "k \<le> length bs \<Longrightarrow> expected_promise (bs @ [b]) k ph = expected_promise bs k ph"
proof
  fix p assume "k \<le> length bs"
  then show "expected_promise (bs @ [b]) k ph p = expected_promise bs k ph p"
    by (cases p) (auto simp: nth_append)
qed

lemma fresh_canon: "fresh_queue = canon [] 0 Waiting"
proof -
  have "(\<lambda>p. if p = Initial then Fulfilled else Pending) = expected_promise [] 0 Waiting"
  proof
    fix p show "(if p = Initial then Fulfilled else Pending) = expected_promise [] 0 Waiting p"
      by (cases p) auto
  qed
  then show ?thesis
    by (simp add: fresh_queue_def canon_def expected_reactions_def schedule_upto_def)
qed

lemma enq_canon:
  assumes "wf_phase bs k ph"
  shows "snd (enqueue b (canon bs k ph)) = canon (bs @ [b]) k ph \<and> wf_phase (bs @ [b]) k ph"
proof -
  let ?n = "length bs"
  have k: "k \<le> ?n" and w: "k = ?n \<longrightarrow> ph = Waiting"
    using assms by (auto simp: wf_phase_def)
  have cf: "catch_from k ph \<le> ?n" and tf: "then_from k ph \<le> ?n"
    using k w by (cases ph; auto)+
  have r: "insert (tail_of ?n, CatchNoop, Caught ?n)
        (insert (Caught ?n, ThenTask ?n, Next ?n) (expected_reactions ?n k ph))
      = expected_reactions (Suc ?n) k ph"
    using cf tf by (auto simp: expected_reactions_def less_Suc_eq)
  have b: "ph = Busy r \<Longrightarrow> (bs @ [b]) ! k = bs ! k" for r
    using k w by (auto simp: nth_append)
  have e: "(case ph of Busy r \<Rightarrow> Start k # replicate (steps ((bs @ [b]) ! k) - r) (Step k) | _ \<Rightarrow> [])
         = (case ph of Busy r \<Rightarrow> Start k # replicate (steps (bs ! k) - r) (Step k) | _ \<Rightarrow> [])"
    using b by (cases ph) auto
  have "snd (enqueue b (canon bs k ph)) = canon (bs @ [b]) k ph"
    using k by (simp add: enqueue_def canon_def Let_def r e schedule_upto_append expected_promise_append)
  moreover have "wf_phase (bs @ [b]) k ph"
    using assms b by (cases ph) (auto simp: wf_phase_def)
  ultimately show ?thesis by simp
qed

lemma tail_of_settled:
  "expected_promise bs k ph (tail_of i) \<noteq> Pending \<longleftrightarrow>
     i = 0 \<or> (i \<le> k \<and> verdict (bs ! (i - 1)) \<noteq> Pending)"
  by (cases i) auto

lemma verdict_settled [simp]: "verdict b \<noteq> Pending"
  by (simp add: verdict_def)

lemma caught_canon:
  assumes w: "wf_phase bs k ph"
    and r: "(src, CatchNoop, tgt) \<in> reactions (canon bs k ph)"
    and p: "promise (canon bs k ph) src \<noteq> Pending"
  shows "(canon bs k ph)\<lparr>promise := (promise (canon bs k ph))(tgt := Fulfilled),
            reactions := reactions (canon bs k ph) - {(src, CatchNoop, tgt)}\<rparr>
         = canon bs k Ready \<and> wf_phase bs k Ready \<and> ph = Waiting \<and> k < length bs"
proof -
  from r obtain i where i: "src = tail_of i" "tgt = Caught i" "catch_from k ph \<le> i" "i < length bs"
    by (auto simp: canon_def expected_reactions_def)
  from p i(1) have "i \<le> k"
    by (cases i) (auto simp: canon_def split: if_splits)
  with i(3) have ph: "ph = Waiting" and ik: "i = k"
    by (cases ph; simp)+
  have pr: "(expected_promise bs k Waiting)(Caught k := Fulfilled) = expected_promise bs k Ready"
  proof
    fix q show "((expected_promise bs k Waiting)(Caught k := Fulfilled)) q = expected_promise bs k Ready q"
      by (cases q) auto
  qed
  have re: "expected_reactions (length bs) k Waiting - {(tail_of k, CatchNoop, Caught k)}
            = expected_reactions (length bs) k Ready"
    using i(4) ik by (auto simp: expected_reactions_def not_less_eq_eq dest: le_antisym)
  show ?thesis
    using i ph ik w pr re by (simp add: canon_def wf_phase_def)
qed

lemma start_canon:
  assumes w: "wf_phase bs k ph"
    and r: "(src, ThenTask i, tgt) \<in> reactions (canon bs k ph)"
    and p: "promise (canon bs k ph) src = Fulfilled"
  shows "(canon bs k ph)\<lparr>reactions := reactions (canon bs k ph) - {(src, ThenTask i, tgt)},
            running := running (canon bs k ph) \<union> {(i, steps (bodies (canon bs k ph) ! i), tgt)},
            events := events (canon bs k ph) @ [Start i]\<rparr>
         = canon bs k (Busy (steps (bs ! k))) \<and> wf_phase bs k (Busy (steps (bs ! k)))
           \<and> ph = Ready \<and> i = k"
proof -
  from r have i: "src = Caught i" "tgt = Next i" "then_from k ph \<le> i" "i < length bs"
    by (auto simp: canon_def expected_reactions_def)
  from p i(1) have "i < k \<or> (i = k \<and> ph \<noteq> Waiting)"
    by (auto simp: canon_def split: if_splits)
  with i(3) have ph: "ph = Ready" and ik: "i = k"
    by (cases ph; simp)+
  have pr: "expected_promise bs k Ready = expected_promise bs k (Busy r)" for r
  proof
    fix q show "expected_promise bs k Ready q = expected_promise bs k (Busy r) q"
      by (cases q) auto
  qed
  have re: "expected_reactions (length bs) k Ready - {(Caught k, ThenTask k, Next k)}
            = expected_reactions (length bs) k (Busy r)" for r
    using i(4) ik by (auto simp: expected_reactions_def)
  show ?thesis
    using i ph ik w pr[of "steps (bs ! k)"] re[of "steps (bs ! k)"]
    by (simp add: canon_def wf_phase_def)
qed

lemma skip_canon:
  assumes r: "(src, ThenTask i, tgt) \<in> reactions (canon bs k ph)"
    and p: "promise (canon bs k ph) src = Rejected"
  shows False
proof -
  from r have "src = Caught i"
    by (auto simp: canon_def expected_reactions_def)
  with p show False by (auto simp: canon_def split: if_splits)
qed

lemma work_canon:
  assumes w: "wf_phase bs k ph"
    and r: "(i, Suc n, tgt) \<in> running (canon bs k ph)"
  shows "(canon bs k ph)\<lparr>running := (running (canon bs k ph) - {(i, Suc n, tgt)}) \<union> {(i, n, tgt)},
            events := events (canon bs k ph) @ [Step i]\<rparr>
         = canon bs k (Busy n) \<and> wf_phase bs k (Busy n) \<and> ph = Busy (Suc n) \<and> i = k"
proof -
  from r have ph: "ph = Busy (Suc n)" and ik: "i = k" and t: "tgt = Next k"
    by (cases ph; simp add: canon_def)+
  from w ph have le: "Suc n \<le> steps (bs ! k)" by (simp add: wf_phase_def)
  then have rep: "replicate (steps (bs ! k) - Suc n) (Step k) @ [Step k]
                  = replicate (steps (bs ! k) - n) (Step k)"
    by (simp add: replicate_append_same Suc_diff_Suc flip: replicate_Suc)
  have pr: "expected_promise bs k (Busy (Suc n)) = expected_promise bs k (Busy n)"
  proof
    fix q show "expected_promise bs k (Busy (Suc n)) q = expected_promise bs k (Busy n) q"
      by (cases q) auto
  qed
  show ?thesis
    using ph ik t w le rep pr by (simp add: canon_def wf_phase_def expected_reactions_def)
qed

lemma finish_canon:
  assumes w: "wf_phase bs k ph"
    and r: "(i, 0, tgt) \<in> running (canon bs k ph)"
  shows "(canon bs k ph)\<lparr>promise := (promise (canon bs k ph))(tgt := verdict (bodies (canon bs k ph) ! i)),
            running := running (canon bs k ph) - {(i, 0, tgt)},
            events := events (canon bs k ph) @ [End i]\<rparr>
         = canon bs (Suc k) Waiting \<and> wf_phase bs (Suc k) Waiting \<and> ph = Busy 0 \<and> i = k"
proof -
  from r have ph: "ph = Busy 0" and ik: "i = k" and t: "tgt = Next k"
    by (cases ph; simp add: canon_def)+
  from w ph have k: "k < length bs" by (auto simp: wf_phase_def)
  have pr: "(expected_promise bs k (Busy 0))(Next k := verdict (bs ! k))
            = expected_promise bs (Suc k) Waiting"
  proof
    fix q show "((expected_promise bs k (Busy 0))(Next k := verdict (bs ! k))) q
            = expected_promise bs (Suc k) Waiting q"
      by (cases q) (auto simp: less_Suc_eq)
  qed
  have re: "expected_reactions (length bs) k (Busy 0) = expected_reactions (length bs) (Suc k) Waiting"
    by (simp add: expected_reactions_def)
  show ?thesis
    using ph ik t k pr re
    by (simp add: canon_def wf_phase_def schedule_upto_Suc run_of_def)
qed

lemma step_canon:
  assumes "step s s'" and "s = canon bs k ph" and "wf_phase bs k ph"
  shows "\<exists>bs' k' ph'. s' = canon bs' k' ph' \<and> wf_phase bs' k' ph'"
  using assms
proof (cases rule: step.cases)
  case (enq task)
  with assms enq_canon[OF assms(3), of task] show ?thesis by metis
next
  case (caught src tgt)
  with assms caught_canon[OF assms(3), of src tgt] show ?thesis by metis
next
  case (start src i tgt)
  with assms start_canon[OF assms(3), of src i tgt] show ?thesis by metis
next
  case (skip src i tgt)
  with assms skip_canon[of src i tgt bs k ph] show ?thesis by metis
next
  case (work i r tgt)
  with assms work_canon[OF assms(3), of i r tgt] show ?thesis by metis
next
  case (finish i tgt)
  with assms finish_canon[OF assms(3), of i tgt] show ?thesis by metis
qed

lemma reachable_canon:
  "reachable s \<Longrightarrow> \<exists>bs k ph. s = canon bs k ph \<and> wf_phase bs k ph"
proof (induction rule: reachable.induct)
  case fresh
  have "wf_phase [] 0 Waiting" by (simp add: wf_phase_def)
  with fresh_canon show ?case by blast
next
  case (after s s')
  then show ?case using step_canon by blast
qed

lemma End_in_run_of [simp]: "End i \<in> set (run_of j b) \<longleftrightarrow> i = j"
  by (auto simp: run_of_def)

lemma End_in_schedule_upto [simp]: "End i \<in> set (schedule_upto bs k) \<longleftrightarrow> i < k"
  by (induction k) (auto simp: schedule_upto_Suc schedule_upto_def less_Suc_eq)

lemma End_in_events_canon: "End i \<in> set (events (canon bs k ph)) \<longleftrightarrow> i < k"
  by (cases ph) (auto simp: canon_def)

lemma schedule_upto_split:
  "k \<le> n \<Longrightarrow> \<exists>rest. schedule_upto bs n = schedule_upto bs k @ rest"
proof (induction n)
  case 0
  then show ?case by simp
next
  case (Suc n)
  show ?case
  proof (cases "k = Suc n")
    case True
    then show ?thesis by simp
  next
    case False
    with Suc obtain rest where "schedule_upto bs n = schedule_upto bs k @ rest" by auto
    then show ?thesis by (simp add: schedule_upto_Suc)
  qed
qed

lemma events_canon_prefix:
  assumes "wf_phase bs k ph"
  shows "\<exists>rest. schedule bs = events (canon bs k ph) @ rest"
proof (cases ph)
  case (Busy r)
  with assms have k: "Suc k \<le> length bs" and r: "r \<le> steps (bs ! k)"
    by (auto simp: wf_phase_def)
  from schedule_upto_split[OF k] obtain rest where
    "schedule bs = schedule_upto bs k @ run_of k (bs ! k) @ rest"
    by (auto simp: schedule_def schedule_upto_Suc)
  moreover have "run_of k (bs ! k) =
      (Start k # replicate (steps (bs ! k) - r) (Step k)) @ replicate r (Step k) @ [End k]"
    using r by (simp add: run_of_def flip: replicate_add)
  ultimately show ?thesis using Busy by (simp add: canon_def)
next
  case Waiting
  with assms schedule_upto_split[of k "length bs" bs] show ?thesis
    by (auto simp: canon_def schedule_def wf_phase_def)
next
  case Ready
  with assms schedule_upto_split[of k "length bs" bs] show ?thesis
    by (auto simp: canon_def schedule_def wf_phase_def)
qed

lemma run_to_end:
  "r \<le> steps (bs ! k) \<Longrightarrow> k < length bs \<Longrightarrow>
   rtranclp step (canon bs k (Busy r)) (canon bs (Suc k) Waiting)"
proof (induction r)
  case 0
  then have w: "wf_phase bs k (Busy 0)" by (simp add: wf_phase_def)
  have m: "(k, 0, Next k) \<in> running (canon bs k (Busy 0))" by (simp add: canon_def)
  from step.finish[OF m] finish_canon[OF w m]
  have "step (canon bs k (Busy 0)) (canon bs (Suc k) Waiting)" by simp
  then show ?case by blast
next
  case (Suc r)
  then have w: "wf_phase bs k (Busy (Suc r))" by (simp add: wf_phase_def)
  have m: "(k, Suc r, Next k) \<in> running (canon bs k (Busy (Suc r)))" by (simp add: canon_def)
  from step.work[OF m] work_canon[OF w m]
  have "step (canon bs k (Busy (Suc r))) (canon bs k (Busy r))" by simp
  moreover have "rtranclp step (canon bs k (Busy r)) (canon bs (Suc k) Waiting)"
    using Suc by simp
  ultimately show ?case by (rule converse_rtranclp_into_rtranclp)
qed

lemma ready_to_end:
  assumes "k < length bs"
  shows "rtranclp step (canon bs k Ready) (canon bs (Suc k) Waiting)"
proof -
  have w: "wf_phase bs k Ready" using assms by (simp add: wf_phase_def)
  have m: "(Caught k, ThenTask k, Next k) \<in> reactions (canon bs k Ready)"
    using assms by (simp add: canon_def expected_reactions_def)
  have p: "promise (canon bs k Ready) (Caught k) = Fulfilled" by (simp add: canon_def)
  from step.start[OF m p] start_canon[OF w m p]
  have "step (canon bs k Ready) (canon bs k (Busy (steps (bs ! k))))" by simp
  moreover have "rtranclp step (canon bs k (Busy (steps (bs ! k)))) (canon bs (Suc k) Waiting)"
    using assms by (simp add: run_to_end)
  ultimately show ?thesis by (rule converse_rtranclp_into_rtranclp)
qed

lemma waiting_to_end:
  assumes "k < length bs"
  shows "rtranclp step (canon bs k Waiting) (canon bs (Suc k) Waiting)"
proof -
  have w: "wf_phase bs k Waiting" using assms by (simp add: wf_phase_def)
  have m: "(tail_of k, CatchNoop, Caught k) \<in> reactions (canon bs k Waiting)"
    using assms by (auto simp: canon_def expected_reactions_def)
  have p: "promise (canon bs k Waiting) (tail_of k) \<noteq> Pending"
    by (cases k) (auto simp: canon_def)
  from step.caught[OF m p] caught_canon[OF w m p]
  have "step (canon bs k Waiting) (canon bs k Ready)" by simp
  then show ?thesis using ready_to_end[OF assms] by (rule converse_rtranclp_into_rtranclp)
qed

lemma drain_from_waiting:
  "k \<le> length bs \<Longrightarrow> rtranclp step (canon bs k Waiting) (canon bs (length bs) Waiting)"
proof (induction "length bs - k" arbitrary: k)
  case 0
  then show ?case by simp
next
  case (Suc d)
  then have k: "k < length bs" and d: "d = length bs - Suc k" by auto
  from Suc(1)[OF d] k
  have "rtranclp step (canon bs (Suc k) Waiting) (canon bs (length bs) Waiting)" by simp
  with waiting_to_end[OF k] show ?case by (rule rtranclp_trans)
qed

lemma drain:
  assumes "wf_phase bs k ph"
  shows "rtranclp step (canon bs k ph) (canon bs (length bs) Waiting)"
proof (cases ph)
  case Waiting
  with assms show ?thesis by (simp add: drain_from_waiting wf_phase_def)
next
  case Ready
  with assms have k: "k < length bs" by (auto simp: wf_phase_def)
  from ready_to_end[OF k] drain_from_waiting[of "Suc k" bs] k Ready
  show ?thesis by (auto intro: rtranclp_trans)
next
  case (Busy r)
  with assms have k: "k < length bs" and r: "r \<le> steps (bs ! k)" by (auto simp: wf_phase_def)
  from run_to_end[OF r k] drain_from_waiting[of "Suc k" bs] k Busy
  show ?thesis by (auto intro: rtranclp_trans)
qed

lemma promise_of_reachable:
  assumes "reachable s"
  shows "promise s (Next i) =
           (if End i \<in> set (events s) then verdict (bodies s ! i) else Pending)"
proof -
  from reachable_canon[OF assms] obtain bs k ph where s: "s = canon bs k ph"
    by blast
  show ?thesis
    unfolding s End_in_events_canon by (simp add: canon_def)
qed

lemma step_bodies: "step s s' \<Longrightarrow> \<exists>ts. bodies s' = bodies s @ ts"
  by (induction rule: step.induct) (auto simp: enqueue_def Let_def)

lemma steps_bodies: "rtranclp step s s' \<Longrightarrow> \<exists>ts. bodies s' = bodies s @ ts"
proof (induction rule: rtranclp_induct)
  case base
  then show ?case by simp
next
  case (step y z)
  then show ?case using step_bodies[of y z] by auto
qed

lemma reachable_steps: "rtranclp step s s' \<Longrightarrow> reachable s \<Longrightarrow> reachable s'"
  by (induction rule: rtranclp_induct) (auto intro: reachable.after)

text \<open>
  C1. In every state that the queue reaches, whatever tasks are enqueued and whenever: at
  most one body has started and not ended; the events of the bodies so far are a prefix of
  the schedule that runs the bodies one after the other, whole, in the order of their
  enqueueing; the promise returned to the caller of a task is pending until the body of
  that task has ended, and is then settled as that body ended and no other, rejected when
  it threw; and from that state the loop can run every enqueued body to its end, whichever
  of the bodies throw. \<open>_enqueue\<close> puts the task it is handed, as it is, behind the tasks
  enqueued so far, and the promise it returns is, in every state that follows, pending
  until the body of that very task has ended, and then settled as that task ends.
\<close>

theorem enqueue_serialises:
  assumes "reachable s"
  shows "(\<forall>x\<in>running s. \<forall>y\<in>running s. x = y) \<and>
         (\<exists>rest. schedule (bodies s) = events s @ rest) \<and>
         (\<forall>i. promise s (Next i) =
                (if End i \<in> set (events s) then verdict (bodies s ! i) else Pending)) \<and>
         (\<exists>s'. rtranclp step s s' \<and> bodies s' = bodies s \<and> events s' = schedule (bodies s)) \<and>
         (\<forall>task. fst (enqueue task s) = Next (length (bodies s)) \<and>
                 bodies (snd (enqueue task s)) = bodies s @ [task] \<and>
                 reachable (snd (enqueue task s)) \<and>
                 (\<forall>s'. rtranclp step (snd (enqueue task s)) s' \<longrightarrow>
                    promise s' (fst (enqueue task s)) =
                      (if End (length (bodies s)) \<in> set (events s') then verdict task
                       else Pending)))"
proof -
  from reachable_canon[OF assms] obtain bs k ph where s: "s = canon bs k ph" and w: "wf_phase bs k ph"
    by blast
  have 1: "\<forall>x\<in>running s. \<forall>y\<in>running s. x = y"
    unfolding s by (cases ph) (auto simp: canon_def)
  have 2: "\<exists>rest. schedule (bodies s) = events s @ rest"
    using events_canon_prefix[OF w] by (simp add: s canon_def)
  have 3: "promise s (Next i) = (if End i \<in> set (events s) then verdict (bodies s ! i) else Pending)"
    for i
    using assms by (rule promise_of_reachable)
  have "bodies (canon bs (length bs) Waiting) = bodies s"
    and "events (canon bs (length bs) Waiting) = schedule (bodies s)"
    by (simp_all add: s canon_def schedule_def)
  with drain[OF w] have 4: "\<exists>s'. rtranclp step s s' \<and> bodies s' = bodies s \<and> events s' = schedule (bodies s)"
    unfolding s by blast
  have 5: "fst (enqueue task s) = Next (length (bodies s)) \<and>
           bodies (snd (enqueue task s)) = bodies s @ [task] \<and>
           reachable (snd (enqueue task s)) \<and>
           (\<forall>s'. rtranclp step (snd (enqueue task s)) s' \<longrightarrow>
              promise s' (fst (enqueue task s)) =
                (if End (length (bodies s)) \<in> set (events s') then verdict task else Pending))"
    for task
  proof (intro conjI allI impI)
    show f: "fst (enqueue task s) = Next (length (bodies s))"
      by (simp add: enqueue_def Let_def)
    show b: "bodies (snd (enqueue task s)) = bodies s @ [task]"
      by (simp add: enqueue_def Let_def)
    show r: "reachable (snd (enqueue task s))"
      using assms step.enq by (rule reachable.after)
    fix s' assume st: "rtranclp step (snd (enqueue task s)) s'"
    from steps_bodies[OF st] b obtain ts where "bodies s' = bodies s @ [task] @ ts" by auto
    then have "bodies s' ! length (bodies s) = task" by simp
    with promise_of_reachable[OF reachable_steps[OF st r], of "length (bodies s)"] f
    show "promise s' (fst (enqueue task s)) =
            (if End (length (bodies s)) \<in> set (events s') then verdict task else Pending)"
      by simp
  qed
  from 1 2 3 4 5 show ?thesis by blast
qed

theorem enqueue_serialises_witness:
  "reachable fresh_queue \<and>
   fst (enqueue \<lparr>steps = 0, fails = True\<rparr> fresh_queue) = Next 0 \<and>
   fst (enqueue \<lparr>steps = 1, fails = False\<rparr> (snd (enqueue \<lparr>steps = 0, fails = True\<rparr> fresh_queue)))
     = Next 1 \<and>
   bodies (snd (enqueue \<lparr>steps = 1, fails = False\<rparr> (snd (enqueue \<lparr>steps = 0, fails = True\<rparr> fresh_queue))))
     = [\<lparr>steps = 0, fails = True\<rparr>, \<lparr>steps = 1, fails = False\<rparr>] \<and>
   (\<exists>s'. rtranclp step (snd (enqueue \<lparr>steps = 1, fails = False\<rparr>
                                 (snd (enqueue \<lparr>steps = 0, fails = True\<rparr> fresh_queue)))) s' \<and>
         events s' = [Start 0, End 0, Start 1, Step 1, End 1] \<and>
         promise s' (Next 0) = Rejected \<and> promise s' (Next 1) = Fulfilled)"
proof -
  let ?t0 = "\<lparr>steps = 0, fails = True\<rparr>"
  let ?t1 = "\<lparr>steps = 1, fails = False\<rparr>"
  let ?s1 = "snd (enqueue ?t0 fresh_queue)"
  let ?s2 = "snd (enqueue ?t1 ?s1)"
  have r0: "reachable fresh_queue" by (rule reachable.fresh)
  from enqueue_serialises [OF r0]
  have e0: "fst (enqueue ?t0 fresh_queue) = Next (length (bodies fresh_queue))"
    and b1: "bodies ?s1 = bodies fresh_queue @ [?t0]" and r1: "reachable ?s1"
    by blast+
  from enqueue_serialises [OF r1]
  have e1: "fst (enqueue ?t1 ?s1) = Next (length (bodies ?s1))"
    and b2: "bodies ?s2 = bodies ?s1 @ [?t1]" and r2: "reachable ?s2"
    and p1: "\<And>s'. rtranclp step ?s2 s' \<Longrightarrow>
               promise s' (fst (enqueue ?t1 ?s1)) =
                 (if End (length (bodies ?s1)) \<in> set (events s') then verdict ?t1 else Pending)"
    by blast+
  have bf: "bodies fresh_queue = []" by (simp add: fresh_queue_def)
  have b: "bodies ?s2 = [?t0, ?t1]" using b1 b2 bf by simp
  have l: "length (bodies fresh_queue) = 0" "length (bodies ?s1) = 1" using b1 bf by simp_all
  have e: "schedule [?t0, ?t1] = [Start 0, End 0, Start 1, Step 1, End 1]"
    by (simp add: schedule_def schedule_upto_def run_of_def upt_rec[of 0] upt_rec[of 1])
  from enqueue_serialises [OF r2] obtain s' where
    s': "rtranclp step ?s2 s'" "bodies s' = bodies ?s2" "events s' = schedule (bodies ?s2)"
    by blast
  have ev: "events s' = [Start 0, End 0, Start 1, Step 1, End 1]"
    using s'(3) b e by simp
  have rs: "reachable s'" using s'(1) r2 by (rule reachable_steps)
  from enqueue_serialises [OF rs]
  have "promise s' (Next 0) = (if End 0 \<in> set (events s') then verdict (bodies s' ! 0) else Pending)"
    by blast
  then have q0: "promise s' (Next 0) = Rejected"
    using ev s'(2) b by (simp add: verdict_def)
  from p1[OF s'(1)] have q1: "promise s' (Next 1) = Fulfilled"
    using ev e1 l by (simp add: verdict_def)
  from r0 e0 e1 l b s'(1) ev q0 q1 show ?thesis by auto
qed

subsection \<open>Resolution of a key path\<close>

text \<open>
  C4. Resolution of a valid key path always returns. It walks the path part by part, and
  when the node it stands on, with parts still to go, is a scalar, \<open>null\<close>, absent or a
  function, the result is not-found (\<open>null\<close>). An array is not such a node: it is walked
  into like a map, and whenever the walk through maps and arrays reaches a node, that
  node is the result (\<open>null\<close> when it is absent). The walk reads a part as the language
  does, along the prototype chain: a last part that the map or array reached does not
  bind resolves to what the node inherits under that name. So it resolves to not-found
  exactly when the name is not \<open>__proto__\<close> and not the name of a member of
  \<open>Object.prototype\<close> nor, in an array, of \<open>Array.prototype\<close>; for these names the result is
  the inherited member.
\<close>

theorem find_not_traversable:
  assumes "validateID sep ident = Returns ()"
  shows "(\<exists>r. find_sm sep data ident = Returns r) \<and>
         (\<forall>pre part rest node.
            split sep ident = pre @ part # rest \<and> walk data pre = Returns node \<and>
            (typeof node \<noteq> ''object'' \<or> node = Null)
            \<longrightarrow> find_sm sep data ident = Returns Null) \<and>
         (\<forall>node. walk data (split sep ident) = Returns node
            \<longrightarrow> find_sm sep data ident = Returns (or_null node)) \<and>
         (\<forall>pre part node.
            split sep ident = pre @ [part] \<and> walk data pre = Returns node \<and>
            is_node node \<and> own_property node part = None
            \<longrightarrow> find_sm sep data ident = Returns (or_null (inherited_member node part)) \<and>
                (find_sm sep data ident = Returns Null \<longleftrightarrow>
                   part \<noteq> ''__proto__'' \<and> part \<notin> set object_members \<and>
                   (isArray node \<longrightarrow> part \<notin> set array_members)))"
proof (intro conjI allI impI)
  show "\<exists>r. find_sm sep data ident = Returns r"
    using assms find_loop_Returns by (simp add: find_sm_def)
next
  fix pre part rest node
  assume h: "split sep ident = pre @ part # rest \<and> walk data pre = Returns node \<and>
            (typeof node \<noteq> ''object'' \<or> node = Null)"
  then have "find_loop node (part # rest) = Returns Null" by auto
  with h find_loop_append[of data pre node "part # rest"]
  show "find_sm sep data ident = Returns Null"
    using assms by (auto simp: find_sm_def)
next
  fix node assume "walk data (split sep ident) = Returns node"
  then show "find_sm sep data ident = Returns (or_null node)"
    using assms by (simp add: find_sm_def find_loop_walk)
next
  fix pre part node
  assume h: "split sep ident = pre @ [part] \<and> walk data pre = Returns node \<and>
            is_node node \<and> own_property node part = None"
  then have "walk data (split sep ident) = Returns (inherited_member node part)"
    by (simp add: walk_append prop_get_node)
  from find_loop_walk[OF this]
  show r: "find_sm sep data ident = Returns (or_null (inherited_member node part))"
    using assms by (simp add: find_sm_def)
  have "or_null (inherited_member node part) = Null \<longleftrightarrow> inherited_member node part = Undefined"
    using h by (cases node) (auto simp: object_member_def array_member_def)
  with r inherited_member_Undefined_iff[of node part] h
  show "find_sm sep data ident = Returns Null \<longleftrightarrow>
          part \<noteq> ''__proto__'' \<and> part \<notin> set object_members \<and>
          (isArray node \<longrightarrow> part \<notin> set array_members)"
    by simp
qed

theorem find_not_traversable_witness:
  "validateID (CHR ''.'') ''a.b'' = Returns () \<and>
   split (CHR ''.'') ''a.b'' = [''a''] @ ''b'' # [] \<and>
   walk (Obj [(''a'', Str ''x'')]) [''a''] = Returns (Str ''x'') \<and>
   typeof (Str ''x'') \<noteq> ''object'' \<and>
   find_sm (CHR ''.'') (Obj [(''a'', Str ''x'')]) ''a.b'' = Returns Null \<and>
   split (CHR ''.'') ''a.b'' = [''a''] @ [''b''] \<and>
   walk (Obj [(''a'', Obj [])]) [''a''] = Returns (Obj []) \<and>
   is_node (Obj []) \<and> own_property (Obj []) ''b'' = None \<and>
   ''b'' \<noteq> ''__proto__'' \<and> ''b'' \<notin> set object_members \<and> \<not> isArray (Obj []) \<and>
   find_sm (CHR ''.'') (Obj [(''a'', Obj [])]) ''a.b'' = Returns Null \<and>
   validateID (CHR ''.'') ''a.toString'' = Returns () \<and>
   split (CHR ''.'') ''a.toString'' = [''a''] @ [''toString''] \<and>
   own_property (Obj []) ''toString'' = None \<and>
   inherited_member (Obj []) ''toString'' = Builtin ''Object.prototype.toString'' \<and>
   find_sm (CHR ''.'') (Obj [(''a'', Obj [])]) ''a.toString''
     = Returns (Builtin ''Object.prototype.toString'')"
proof -
  have v: "validateID (CHR ''.'') ''a.b'' = Returns ()"
    by (simp add: validateID_def endsWith_def)
  have s: "split (CHR ''.'') ''a.b'' = [''a''] @ ''b'' # []" by simp
  have w: "walk (Obj [(''a'', Str ''x'')]) [''a''] = Returns (Str ''x'')" by simp
  have t: "typeof (Str ''x'') \<noteq> ''object''" by simp
  from find_not_traversable [OF v, of "Obj [(''a'', Str ''x'')]"] s w t
  have 1: "find_sm (CHR ''.'') (Obj [(''a'', Str ''x'')]) ''a.b'' = Returns Null" by blast
  have s0: "split (CHR ''.'') ''a.b'' = [''a''] @ [''b'']" by simp
  have w0: "walk (Obj [(''a'', Obj [])]) [''a''] = Returns (Obj [])" by simp
  have n0: "is_node (Obj [])" "own_property (Obj []) ''b'' = None" by simp_all
  have b: "''b'' \<noteq> ''__proto__''" "''b'' \<notin> set object_members" "\<not> isArray (Obj [])"
    by (simp_all add: object_members_def)
  from find_not_traversable [OF v, of "Obj [(''a'', Obj [])]"] s0 w0 n0 b
  have 2: "find_sm (CHR ''.'') (Obj [(''a'', Obj [])]) ''a.b'' = Returns Null" by blast
  have v': "validateID (CHR ''.'') ''a.toString'' = Returns ()"
    by (simp add: validateID_def endsWith_def)
  have s': "split (CHR ''.'') ''a.toString'' = [''a''] @ [''toString'']" by simp
  have n: "own_property (Obj []) ''toString'' = None" by simp
  have m: "inherited_member (Obj []) ''toString'' = Builtin ''Object.prototype.toString''"
    by (simp add: object_member_def object_members_def)
  from find_not_traversable [OF v', of "Obj [(''a'', Obj [])]"] s' w0 n0(1) n
  have "find_sm (CHR ''.'') (Obj [(''a'', Obj [])]) ''a.toString''
     = Returns (or_null (inherited_member (Obj []) ''toString''))" by blast
  then have 3: "find_sm (CHR ''.'') (Obj [(''a'', Obj [])]) ''a.toString''
     = Returns (Builtin ''Object.prototype.toString'')"
    unfolding m by simp
  from v s w t 1 s0 w0 n0 b 2 v' s' n m 3 show ?thesis by blast
qed

text \<open>
  The claim as first stated counts an array among the nodes at which resolution stops.
  The part \<open>0\<close> of the path \<open>a.0\<close> is resolved inside the array bound to \<open>a\<close>.
\<close>

theorem find_walks_into_array:
  "isArray (Arr [Num (Finite 5)] []) \<and>
   find_sm (CHR ''.'') (Obj [(''a'', Arr [Num (Finite 5)] [])]) ''a.0'' = Returns (Num (Finite 5)) \<and>
   find_sm (CHR ''.'') (Obj [(''a'', Arr [Num (Finite 5)] [])]) ''a.0'' \<noteq> Returns Null"
  by (simp add: find_sm_def validateID_def endsWith_def array_index_def is_digit_def
      decimal_value_def digit_value_def)

text \<open>
  C5. When the walk along the path reaches a node, \<open>get\<close> returns \<open>null\<close> if the node is
  \<open>null\<close> or is absent (\<open>undefined\<close>) and the node itself otherwise, and \<open>has\<close> returns
  \<open>false\<close> in the first case and \<open>true\<close> in the second. So a path whose last part is bound
  to \<open>null\<close> in the map or array reached, and a path whose last part is neither bound
  there nor the name of an inherited member, give the same results, \<open>null\<close> and \<open>false\<close>: a
  stored \<open>null\<close> cannot be told from such an absent key.
\<close>

theorem find_null_is_not_found:
  assumes "validateID (separator this) ident = Returns ()"
    and "fs w (file this) = Wellformed data"
  shows "(\<forall>v. walk data (split (separator this) ident) = Returns v \<longrightarrow>
            find_sm (separator this) data ident
              = Returns (if v = Null \<or> v = Undefined then Null else v) \<and>
            fst (get this ident w) = Returns (if v = Null \<or> v = Undefined then Null else v) \<and>
            fst (has this ident w) = Returns (\<not> (v = Null \<or> v = Undefined))) \<and>
         (\<forall>pre part node.
            split (separator this) ident = pre @ [part] \<and> walk data pre = Returns node \<and>
            is_node node \<and>
            (own_property node part = Some Null \<or>
             own_property node part = None \<and> part \<noteq> ''__proto__'' \<and>
             part \<notin> set object_members \<and> (isArray node \<longrightarrow> part \<notin> set array_members))
            \<longrightarrow> find_sm (separator this) data ident = Returns Null \<and>
                fst (get this ident w) = Returns Null \<and>
                fst (has this ident w) = Returns False)"
proof -
  have id: "ident \<noteq> []"
    using assms(1) by (auto simp: validateID_def)
  have 1: "find_sm (separator this) data ident
              = Returns (if v = Null \<or> v = Undefined then Null else v) \<and>
            fst (get this ident w) = Returns (if v = Null \<or> v = Undefined then Null else v) \<and>
            fst (has this ident w) = Returns (\<not> (v = Null \<or> v = Undefined))"
    if wk: "walk data (split (separator this) ident) = Returns v" for v
  proof -
    have o: "or_null v = (if v = Null \<or> v = Undefined then Null else v)"
      by (cases v) auto
    have "find_sm (separator this) data ident
             = Returns (if v = Null \<or> v = Undefined then Null else v)"
      using assms(1) wk by (simp add: find_sm_def find_loop_walk o)
    then show ?thesis
      using id
      by (auto simp add: get_def has_def lift_def
          bind_io_Returns[where m="read this" and w=w, OF read_Wellformed[OF assms(2)]])
  qed
  have 2: "find_sm (separator this) data ident = Returns Null \<and>
           fst (get this ident w) = Returns Null \<and> fst (has this ident w) = Returns False"
    if h: "split (separator this) ident = pre @ [part] \<and> walk data pre = Returns node \<and>
            is_node node \<and>
            (own_property node part = Some Null \<or>
             own_property node part = None \<and> part \<noteq> ''__proto__'' \<and>
             part \<notin> set object_members \<and> (isArray node \<longrightarrow> part \<notin> set array_members))"
    for pre part node
  proof -
    from h have "own_property node part = Some Null \<or>
        own_property node part = None \<and> inherited_member node part = Undefined"
      using inherited_member_Undefined_iff[of node part] by auto
    then obtain v where "prop_get node part = Returns v" "v = Null \<or> v = Undefined"
      using h prop_get_node[of node part] by auto
    with h have "walk data (split (separator this) ident) = Returns v"
      by (simp add: walk_append)
    from 1[OF this] \<open>v = Null \<or> v = Undefined\<close> show ?thesis by simp
  qed
  from 1 2 show ?thesis by blast
qed

theorem find_null_is_not_found_witness:
  "validateID (separator db) ''a'' = Returns () \<and>
   fs (on_disk db (Wellformed (Obj [(''a'', Null)]))) (file db) = Wellformed (Obj [(''a'', Null)]) \<and>
   split (separator db) ''a'' = [] @ [''a''] \<and>
   walk (Obj [(''a'', Null)]) [] = Returns (Obj [(''a'', Null)]) \<and>
   is_node (Obj [(''a'', Null)]) \<and> own_property (Obj [(''a'', Null)]) ''a'' = Some Null \<and>
   fst (get db ''a'' (on_disk db (Wellformed (Obj [(''a'', Null)])))) = Returns Null \<and>
   fst (has db ''a'' (on_disk db (Wellformed (Obj [(''a'', Null)])))) = Returns False \<and>
   fs (on_disk db (Wellformed (Obj []))) (file db) = Wellformed (Obj []) \<and>
   walk (Obj []) [] = Returns (Obj []) \<and> is_node (Obj []) \<and>
   own_property (Obj []) ''a'' = None \<and> ''a'' \<noteq> ''__proto__'' \<and>
   ''a'' \<notin> set object_members \<and> \<not> isArray (Obj []) \<and>
   fst (get db ''a'' (on_disk db (Wellformed (Obj [])))) = Returns Null \<and>
   fst (has db ''a'' (on_disk db (Wellformed (Obj [])))) = Returns False \<and>
   validateID (separator db) ''toString'' = Returns () \<and>
   walk (Obj []) (split (separator db) ''toString'')
     = Returns (Builtin ''Object.prototype.toString'') \<and>
   fst (get db ''toString'' (on_disk db (Wellformed (Obj []))))
     = Returns (Builtin ''Object.prototype.toString'') \<and>
   fst (has db ''toString'' (on_disk db (Wellformed (Obj [])))) = Returns True"
proof -
  have v: "validateID (separator db) ''a'' = Returns ()"
    by (simp add: validateID_def endsWith_def)
  have d: "fs (on_disk db (Wellformed (Obj [(''a'', Null)]))) (file db)
             = Wellformed (Obj [(''a'', Null)])" by simp
  have s: "split (separator db) ''a'' = [] @ [''a'']" by simp
  have k: "walk (Obj [(''a'', Null)]) [] = Returns (Obj [(''a'', Null)])"
    "is_node (Obj [(''a'', Null)])" "own_property (Obj [(''a'', Null)]) ''a'' = Some Null"
    by simp_all
  have d0: "fs (on_disk db (Wellformed (Obj []))) (file db) = Wellformed (Obj [])" by simp
  have k0: "walk (Obj []) [] = Returns (Obj [])" "is_node (Obj [])"
    "own_property (Obj []) ''a'' = None" "''a'' \<noteq> ''__proto__''"
    "''a'' \<notin> set object_members" "\<not> isArray (Obj [])"
    by (simp_all add: object_members_def)
  have v1: "validateID (separator db) ''toString'' = Returns ()"
    by (simp add: validateID_def endsWith_def)
  have k1: "walk (Obj []) (split (separator db) ''toString'')
     = Returns (Builtin ''Object.prototype.toString'')"
    by (simp add: object_member_def object_members_def)
  from find_null_is_not_found [OF v d] s k
  have 1: "fst (get db ''a'' (on_disk db (Wellformed (Obj [(''a'', Null)])))) = Returns Null \<and>
    fst (has db ''a'' (on_disk db (Wellformed (Obj [(''a'', Null)])))) = Returns False"
    by blast
  from find_null_is_not_found [OF v d0] s k0
  have 2: "fst (get db ''a'' (on_disk db (Wellformed (Obj [])))) = Returns Null \<and>
    fst (has db ''a'' (on_disk db (Wellformed (Obj [])))) = Returns False"
    by blast
  from find_null_is_not_found [OF v1 d0] k1
  have 3: "fst (get db ''toString'' (on_disk db (Wellformed (Obj []))))
     = Returns (Builtin ''Object.prototype.toString'') \<and>
    fst (has db ''toString'' (on_disk db (Wellformed (Obj [])))) = Returns True"
    by simp
  from v d s k 1 d0 k0 2 v1 k1 3 show ?thesis by blast
qed

text \<open>
  The claim as first stated has the result for a stored \<open>null\<close> differ from the result
  for an absent key. On the documents \<open>{"a": null}\<close> and \<open>{}\<close> the two are the same.
\<close>

theorem stored_null_reads_as_absent:
  "fst (get db ''a'' (on_disk db (Wellformed (Obj [(''a'', Null)]))))
     = fst (get db ''a'' (on_disk db (Wellformed (Obj [])))) \<and>
   fst (has db ''a'' (on_disk db (Wellformed (Obj [(''a'', Null)]))))
     = fst (has db ''a'' (on_disk db (Wellformed (Obj [])))) \<and>
   fst (has db ''a'' (on_disk db (Wellformed (Obj [(''a'', Null)])))) = Returns False"
  by (simp add: get_def has_def read_def bind_io_def lift_def find_sm_def validateID_def
      endsWith_def object_member_def object_members_def)

subsection \<open>Assignment at a key path\<close>

text \<open>
  C6. On a document that is a map, and for a valid key path none of whose intermediate
  segments is bound to an array and none of whose segments is \<open>__proto__\<close>, \<open>_findAndSet\<close>
  returns the document updated as the specification says: every intermediate node that
  is not an object (a scalar, \<open>null\<close>, an absent key, an inherited function) is replaced
  by a fresh empty map, and the value is assigned at the final segment. In the returned
  document the path leads to the value, through maps only.
\<close>

theorem findAndSet_refines_spec:
  assumes "validateID sep ident = Returns ()"
    and "array_free m (split sep ident)"
    and "''__proto__'' \<notin> set (split sep ident)"
  shows "findAndSet sep (Obj m) ident v
           = Returns (Obj (spec_resolveAndSet m (split sep ident) v)) \<and>
         walk (Obj (spec_resolveAndSet m (split sep ident) v)) (split sep ident) = Returns v \<and>
         (\<forall>pre post. split sep ident = pre @ post \<and> post \<noteq> [] \<longrightarrow>
            (\<exists>c. walk (Obj (spec_resolveAndSet m (split sep ident) v)) pre = Returns (Obj c)))"
  using assms
  by (auto simp: findAndSet_def findAndSet_loop_spec walk_after_set split_not_Nil
      intro: walk_prefix_after_set)

theorem findAndSet_refines_spec_witness:
  "validateID (CHR ''.'') ''a.toString.b'' = Returns () \<and>
   array_free [(''a'', Str ''x'')] (split (CHR ''.'') ''a.toString.b'') \<and>
   ''__proto__'' \<notin> set (split (CHR ''.'') ''a.toString.b'') \<and>
   findAndSet (CHR ''.'') (Obj [(''a'', Str ''x'')]) ''a.toString.b'' (Num (Finite 5))
     = Returns (Obj (spec_resolveAndSet [(''a'', Str ''x'')] (split (CHR ''.'') ''a.toString.b'')
                      (Num (Finite 5)))) \<and>
   spec_resolveAndSet [(''a'', Str ''x'')] (split (CHR ''.'') ''a.toString.b'') (Num (Finite 5))
     = [(''a'', Obj [(''toString'', Obj [(''b'', Num (Finite 5))])])]"
proof -
  have v: "validateID (CHR ''.'') ''a.toString.b'' = Returns ()"
    by (simp add: validateID_def endsWith_def)
  have a: "array_free [(''a'', Str ''x'')] (split (CHR ''.'') ''a.toString.b'')" by simp
  have p: "''__proto__'' \<notin> set (split (CHR ''.'') ''a.toString.b'')" by simp
  have e: "spec_resolveAndSet [(''a'', Str ''x'')] (split (CHR ''.'') ''a.toString.b'') (Num (Finite 5))
     = [(''a'', Obj [(''toString'', Obj [(''b'', Num (Finite 5))])])]" by simp
  from findAndSet_refines_spec [OF v a p, of "Num (Finite 5)"] v a p e show ?thesis by blast
qed

text \<open>
  The claim as first stated has an intermediate node that is an array replaced by a fresh
  map. The array bound to \<open>a\<close> is kept, and \<open>b\<close> becomes a named property of it.
\<close>

theorem findAndSet_keeps_array:
  "findAndSet (CHR ''.'') (Obj [(''a'', Arr [Num (Finite 1)] [])]) ''a.b'' (Num (Finite 5))
     = Returns (Obj [(''a'', Arr [Num (Finite 1)] [(''b'', Num (Finite 5))])]) \<and>
   Obj (spec_resolveAndSet [(''a'', Arr [Num (Finite 1)] [])] (split (CHR ''.'') ''a.b'') (Num (Finite 5)))
     = Obj [(''a'', Obj [(''b'', Num (Finite 5))])]"
  by (simp add: findAndSet_def validateID_def endsWith_def array_index_def is_digit_def)




text \<open>
  The segment \<open>__proto__\<close> is left out of the two statements above. Where it is not an
  own property, an assignment to it reaches the setter of the prototype and adds nothing
  to the document, and a read of it yields the prototype.
\<close>

lemma set_at_proto_stores_nothing:
  "findAndSet (CHR ''.'') (Obj []) ''__proto__'' (Num (Finite 5)) = Returns (Obj []) \<and>
   fst (set_sm db ''__proto__'' (Num (Finite 5)) (on_disk db (Wellformed (Obj []))))
      = Returns (Num (Finite 5)) \<and>
   fst (get db ''__proto__'' (snd (set_sm db ''__proto__'' (Num (Finite 5))
          (on_disk db (Wellformed (Obj []))))))
      = Returns ObjectPrototype"
  by (simp add: set_sm_def get_def read_def write_def write_file_def stringify_def bind_io_def
      lift_def findAndSet_def find_sm_def validateID_def endsWith_def set_prototype_def
      callable_toJSON_def is_object_def callable_toJSON_Obj)

subsection \<open>Validation of the key path\<close>

text \<open>
  C3. For \<open>set\<close>, \<open>get\<close>, \<open>add\<close>, \<open>subtract\<close>, \<open>has\<close> and \<open>push\<close>: an empty key path
  fails with the error for an undefined key before any access to the file. A key path
  that is not empty and that starts or ends with the separator, or holds two separators
  in a row, fails with the error for an invalid key once the document has been read:
  when the file can be read (it holds a document, or is absent and is then created with
  an empty map), the world is left as that read leaves it, with no further access. For
  \<open>set\<close> and \<open>push\<close> the value is supplied, for \<open>add\<close> and \<open>subtract\<close> it is a number.
\<close>

theorem invalid_key_rejected:
  "(ident = [] \<longrightarrow>
      set_sm this ident val w = (Throws UndefinedID, w) \<and>
      get this ident w = (Throws UndefinedID, w) \<and>
      add this ident val w = (Throws UndefinedID, w) \<and>
      (typeof val = ''number'' \<longrightarrow> subtract this ident val w = (Throws UndefinedID, w)) \<and>
      has this ident w = (Throws UndefinedID, w) \<and>
      push this ident val w = (Throws UndefinedID, w)) \<and>
   (ident \<noteq> [] \<and> validateID (separator this) ident = Throws NonValidID \<and>
    (fs w (file this) = Missing \<or> (\<exists>data. fs w (file this) = Wellformed data)) \<longrightarrow>
      get this ident w = (Throws NonValidID, snd (read this w)) \<and>
      has this ident w = (Throws NonValidID, snd (read this w)) \<and>
      (val \<noteq> Undefined \<longrightarrow>
         set_sm this ident val w = (Throws NonValidID, snd (read this w)) \<and>
         push this ident val w = (Throws NonValidID, snd (read this w))) \<and>
      (typeof val = ''number'' \<longrightarrow>
         add this ident val w = (Throws NonValidID, snd (read this w)) \<and>
         subtract this ident val w = (Throws NonValidID, snd (read this w))))"
proof (intro conjI impI)
  assume h: "ident \<noteq> [] \<and> validateID (separator this) ident = Throws NonValidID \<and>
    (fs w (file this) = Missing \<or> (\<exists>data. fs w (file this) = Wellformed data))"
  then obtain data where r: "read this w = (Returns data, snd (read this w))"
    using read_readable by blast
  note b = bind_io_Returns[where m="read this" and w=w, OF r]
  from h have f: "find_sm (separator this) d ident = Throws NonValidID"
    and s: "findAndSet (separator this) d ident x = Throws NonValidID" for d x
    by (simp_all add: find_sm_def findAndSet_def)
  from h show "get this ident w = (Throws NonValidID, snd (read this w))"
    by (simp add: get_def b f lift_def)
  from h show "has this ident w = (Throws NonValidID, snd (read this w))"
    by (simp add: has_def b f lift_def)
  {
    assume "val \<noteq> Undefined"
    with h show "set_sm this ident val w = (Throws NonValidID, snd (read this w))"
      by (simp add: set_sm_def b s lift_def)
    from \<open>val \<noteq> Undefined\<close> h
    show "push this ident val w = (Throws NonValidID, snd (read this w))"
      by (simp add: push_def b f lift_def)
  }
  {
    assume "typeof val = ''number''"
    then obtain n where "val = Num n" by (auto simp: typeof_number_iff)
    with h show "add this ident val w = (Throws NonValidID, snd (read this w))"
      by (simp add: add_def b f lift_def)
    from \<open>val = Num n\<close> h
    show "subtract this ident val w = (Throws NonValidID, snd (read this w))"
      by (simp add: subtract_def add_def b f lift_def)
  }
qed (auto simp: set_sm_def get_def add_def subtract_def has_def push_def lift_def
    typeof_number_iff)

theorem invalid_key_rejected_witness:
  "set_sm db [] (Num (Finite 1)) (on_disk db (Wellformed (Obj [])))
     = (Throws UndefinedID, on_disk db (Wellformed (Obj []))) \<and>
   typeof (Num (Finite 1)) = ''number'' \<and>
   subtract db [] (Num (Finite 1)) (on_disk db (Wellformed (Obj [])))
     = (Throws UndefinedID, on_disk db (Wellformed (Obj []))) \<and>
   ''a..b'' \<noteq> [] \<and> validateID (separator db) ''a..b'' = Throws NonValidID \<and>
   fs (on_disk db (Wellformed (Obj []))) (file db) = Wellformed (Obj []) \<and>
   Num (Finite 1) \<noteq> Undefined \<and>
   get db ''a..b'' (on_disk db (Wellformed (Obj [])))
     = (Throws NonValidID, snd (read db (on_disk db (Wellformed (Obj []))))) \<and>
   set_sm db ''a..b'' (Num (Finite 1)) (on_disk db (Wellformed (Obj [])))
     = (Throws NonValidID, snd (read db (on_disk db (Wellformed (Obj []))))) \<and>
   add db ''a..b'' (Num (Finite 1)) (on_disk db (Wellformed (Obj [])))
     = (Throws NonValidID, snd (read db (on_disk db (Wellformed (Obj [])))))"
proof -
  have t: "typeof (Num (Finite 1)) = ''number''" by simp
  have n: "''a..b'' \<noteq> []" by simp
  have v: "validateID (separator db) ''a..b'' = Throws NonValidID"
    by (simp add: validateID_def endsWith_def)
  have d: "fs (on_disk db (Wellformed (Obj []))) (file db) = Wellformed (Obj [])" by simp
  have u: "Num (Finite 1) \<noteq> Undefined" by simp
  from invalid_key_rejected [of "[]" db "Num (Finite 1)" "on_disk db (Wellformed (Obj []))"] t
  have 1: "set_sm db [] (Num (Finite 1)) (on_disk db (Wellformed (Obj [])))
     = (Throws UndefinedID, on_disk db (Wellformed (Obj []))) \<and>
     subtract db [] (Num (Finite 1)) (on_disk db (Wellformed (Obj [])))
     = (Throws UndefinedID, on_disk db (Wellformed (Obj [])))"
    by blast
  from invalid_key_rejected [of "''a..b''" db "Num (Finite 1)" "on_disk db (Wellformed (Obj []))"]
    t n v d u
  have 2: "get db ''a..b'' (on_disk db (Wellformed (Obj [])))
     = (Throws NonValidID, snd (read db (on_disk db (Wellformed (Obj []))))) \<and>
   set_sm db ''a..b'' (Num (Finite 1)) (on_disk db (Wellformed (Obj [])))
     = (Throws NonValidID, snd (read db (on_disk db (Wellformed (Obj []))))) \<and>
   add db ''a..b'' (Num (Finite 1)) (on_disk db (Wellformed (Obj [])))
     = (Throws NonValidID, snd (read db (on_disk db (Wellformed (Obj [])))))"
    by blast
  from t n v d u 1 2 show ?thesis by blast
qed

text \<open>
  The claim as first stated has the failure come before any access to the file, and has
  it for \<open>delete\<close> too. On the key \<open>.a\<close>, \<open>get\<close> has read the file when it fails, and
  \<open>delete\<close>, which does not validate the key, returns \<open>false\<close>.
\<close>

theorem invalid_key_reads_first:
  "validateID (separator db) ''.a'' = Throws NonValidID \<and>
   get db ''.a'' (on_disk db (Wellformed (Obj [])))
     = (Throws NonValidID, (on_disk db (Wellformed (Obj [])))\<lparr>trace := [ReadFile ''db.json'']\<rparr>) \<and>
   trace (snd (get db ''.a'' (on_disk db (Wellformed (Obj []))))) \<noteq> [] \<and>
   delete db ''.a'' (on_disk db (Wellformed (Obj [])))
     = (Returns False, (on_disk db (Wellformed (Obj [])))\<lparr>trace := [ReadFile ''db.json'']\<rparr>)"
  by (simp add: get_def delete_def read_def bind_io_def lift_def find_sm_def validateID_def
      object_member_def object_members_def)

subsection \<open>Reading the document\<close>

text \<open>
  C9. When the file is absent, \<open>_read\<close> creates it with an empty map in it and returns an
  empty map. When the text of the file is not valid JSON, \<open>_read\<close> fails with the parse
  error and returns no document, and so does every operation built on it; the file is
  left as it is.
\<close>

theorem read_missing_or_malformed:
  "(fs w (file this) = Missing \<longrightarrow>
      read this w = (Returns (Obj []),
        w\<lparr>trace := trace w @ [ReadFile (file this), WriteFile (file this)],
          fs := (fs w)(file this := Wellformed (Obj []))\<rparr>)) \<and>
   (\<forall>s. fs w (file this) = Malformed s \<longrightarrow>
      (let failed = (Throws ParseError, w\<lparr>trace := trace w @ [ReadFile (file this)]\<rparr>)
       in read this w = failed \<and> all_sm this w = failed \<and>
          (ident \<noteq> [] \<longrightarrow>
              get this ident w = failed \<and>
              has this ident w = (Throws ParseError, snd failed) \<and>
              delete this ident w = (Throws ParseError, snd failed)) \<and>
          (ident \<noteq> [] \<and> val \<noteq> Undefined \<longrightarrow>
              set_sm this ident val w = failed \<and> push this ident val w = failed) \<and>
          (ident \<noteq> [] \<and> typeof val = ''number'' \<longrightarrow>
              add this ident val w = failed \<and> subtract this ident val w = failed) \<and>
          (filePath \<noteq> [] \<and> endsWith_json filePath \<longrightarrow>
              backup this filePath w = (Throws ParseError, snd failed))))"
proof (intro conjI allI impI)
  assume "fs w (file this) = Missing"
  then show "read this w = (Returns (Obj []),
        w\<lparr>trace := trace w @ [ReadFile (file this), WriteFile (file this)],
          fs := (fs w)(file this := Wellformed (Obj []))\<rparr>)"
    by (rule read_Missing)
next
  fix s assume m: "fs w (file this) = Malformed s"
  note r = bind_io_Throws[where m="read this" and w=w, OF read_Malformed[OF m]]
  show "let failed = (Throws ParseError, w\<lparr>trace := trace w @ [ReadFile (file this)]\<rparr>)
       in read this w = failed \<and> all_sm this w = failed \<and>
          (ident \<noteq> [] \<longrightarrow>
              get this ident w = failed \<and>
              has this ident w = (Throws ParseError, snd failed) \<and>
              delete this ident w = (Throws ParseError, snd failed)) \<and>
          (ident \<noteq> [] \<and> val \<noteq> Undefined \<longrightarrow>
              set_sm this ident val w = failed \<and> push this ident val w = failed) \<and>
          (ident \<noteq> [] \<and> typeof val = ''number'' \<longrightarrow>
              add this ident val w = failed \<and> subtract this ident val w = failed) \<and>
          (filePath \<noteq> [] \<and> endsWith_json filePath \<longrightarrow>
              backup this filePath w = (Throws ParseError, snd failed))"
    unfolding Let_def
    by (auto simp: read_Malformed[OF m] r all_sm_def get_def has_def delete_def set_sm_def
        push_def add_def subtract_def backup_def typeof_number_iff)
qed

theorem read_missing_or_malformed_witness:
  "fs (on_disk db Missing) (file db) = Missing \<and>
   read db (on_disk db Missing) =
     (Returns (Obj []),
      (on_disk db Missing)\<lparr>trace := trace (on_disk db Missing) @ [ReadFile (file db), WriteFile (file db)],
        fs := (fs (on_disk db Missing))(file db := Wellformed (Obj []))\<rparr>) \<and>
   fs (on_disk db (Malformed ''{key: value,'')) (file db) = Malformed ''{key: value,'' \<and>
   ''any'' \<noteq> [] \<and> Num (Finite 1) \<noteq> Undefined \<and> typeof (Num (Finite 1)) = ''number'' \<and>
   ''b.json'' \<noteq> [] \<and> endsWith_json ''b.json'' \<and>
   fst (read db (on_disk db (Malformed ''{key: value,''))) = Throws ParseError \<and>
   fst (get db ''any'' (on_disk db (Malformed ''{key: value,''))) = Throws ParseError \<and>
   fst (set_sm db ''any'' (Num (Finite 1)) (on_disk db (Malformed ''{key: value,''))) = Throws ParseError \<and>
   fst (add db ''any'' (Num (Finite 1)) (on_disk db (Malformed ''{key: value,''))) = Throws ParseError \<and>
   fst (backup db ''b.json'' (on_disk db (Malformed ''{key: value,''))) = Throws ParseError"
proof -
  have m: "fs (on_disk db Missing) (file db) = Missing" by simp
  have c: "fs (on_disk db (Malformed ''{key: value,'')) (file db) = Malformed ''{key: value,''"
    by simp
  have h: "''any'' \<noteq> []" "Num (Finite 1) \<noteq> Undefined" "typeof (Num (Finite 1)) = ''number''"
    "''b.json'' \<noteq> []" "endsWith_json ''b.json''"
    by (simp_all add: endsWith_json_def)
  from read_missing_or_malformed [of "on_disk db Missing" db] m
  have 1: "read db (on_disk db Missing) =
     (Returns (Obj []),
      (on_disk db Missing)\<lparr>trace := trace (on_disk db Missing) @ [ReadFile (file db), WriteFile (file db)],
        fs := (fs (on_disk db Missing))(file db := Wellformed (Obj []))\<rparr>)"
    by blast
  from read_missing_or_malformed
    [of "on_disk db (Malformed ''{key: value,'')" db "''any''" "Num (Finite 1)" "''b.json''"] c h
  have 2: "fst (read db (on_disk db (Malformed ''{key: value,''))) = Throws ParseError \<and>
   fst (get db ''any'' (on_disk db (Malformed ''{key: value,''))) = Throws ParseError \<and>
   fst (set_sm db ''any'' (Num (Finite 1)) (on_disk db (Malformed ''{key: value,''))) = Throws ParseError \<and>
   fst (add db ''any'' (Num (Finite 1)) (on_disk db (Malformed ''{key: value,''))) = Throws ParseError \<and>
   fst (backup db ''b.json'' (on_disk db (Malformed ''{key: value,''))) = Throws ParseError"
    by (simp add: Let_def)
  from m c h 1 2 show ?thesis by blast
qed

text \<open>
  C10. \<open>clear\<close> with the confirmation and \<open>loadBackup\<close> of a file that parses do not read
  the document file: whatever is at its path, a document, text that is not JSON or no
  file at all, they succeed, and the only accesses they make are the write of the
  document file (with an empty map, or with the content of the backup) and, for
  \<open>loadBackup\<close>, the read of the backup file; when the backup is another file than the
  document file, no read of the document file is among them.
\<close>

theorem clear_loadBackup_skip_read:
  assumes "fs w (file this) \<noteq> Faulty"
  shows "clear this (Some \<lparr>confirm = True\<rparr>) w =
           (Returns True,
            w\<lparr>trace := trace w @ [WriteFile (file this)],
              fs := (fs w)(file this := Wellformed (Obj []))\<rparr>) \<and>
         ReadFile (file this) \<notin>
           set (drop (length (trace w)) (trace (snd (clear this (Some \<lparr>confirm = True\<rparr>) w)))) \<and>
         (\<forall>backupData.
            filePath \<noteq> [] \<and> fs w filePath = Wellformed backupData \<and> json_data backupData
            \<longrightarrow> loadBackup this filePath w =
                 (Returns True,
                  w\<lparr>trace := trace w @ [ReadFile filePath, WriteFile (file this)],
                    fs := (fs w)(file this := Wellformed (json_value backupData))\<rparr>) \<and>
                (filePath \<noteq> file this \<longrightarrow>
                   ReadFile (file this) \<notin>
                     set (drop (length (trace w)) (trace (snd (loadBackup this filePath w))))))"
proof -
  have c: "clear this (Some \<lparr>confirm = True\<rparr>) w =
           (Returns True,
            w\<lparr>trace := trace w @ [WriteFile (file this)],
              fs := (fs w)(file this := Wellformed (Obj []))\<rparr>)"
    using assms
    by (simp add: clear_def write_def write_file_def bind_io_def lift_def)
  have l: "loadBackup this filePath w =
                 (Returns True,
                  w\<lparr>trace := trace w @ [ReadFile filePath, WriteFile (file this)],
                    fs := (fs w)(file this := Wellformed (json_value backupData))\<rparr>)"
    if "filePath \<noteq> [] \<and> fs w filePath = Wellformed backupData \<and> json_data backupData"
    for backupData
    using assms that stringify_kept[OF json_data_kept, of backupData]
    by (simp add: loadBackup_def write_def write_file_def bind_io_def lift_def)
  have c': "ReadFile (file this) \<notin>
           set (drop (length (trace w)) (trace (snd (clear this (Some \<lparr>confirm = True\<rparr>) w))))"
    unfolding c by simp
  have l': "ReadFile (file this) \<notin>
              set (drop (length (trace w)) (trace (snd (loadBackup this filePath w))))"
    if "filePath \<noteq> [] \<and> fs w filePath = Wellformed backupData \<and> json_data backupData"
      and "filePath \<noteq> file this"
    for backupData
    unfolding l[OF that(1)] using that(2) by simp
  from c c' l l' show ?thesis by blast
qed

theorem clear_loadBackup_skip_read_witness:
  "fs (with_file (on_disk db (Malformed ''{key: value,'')) ''b.json''
         (Wellformed (Obj [(''k'', Bool True)]))) (file db) = Malformed ''{key: value,'' \<and>
   fs (with_file (on_disk db (Malformed ''{key: value,'')) ''b.json''
         (Wellformed (Obj [(''k'', Bool True)]))) (file db) \<noteq> Faulty \<and>
   ''b.json'' \<noteq> [] \<and> ''b.json'' \<noteq> file db \<and>
   fs (with_file (on_disk db (Malformed ''{key: value,'')) ''b.json''
         (Wellformed (Obj [(''k'', Bool True)]))) ''b.json'' = Wellformed (Obj [(''k'', Bool True)]) \<and>
   json_data (Obj [(''k'', Bool True)]) \<and>
   fst (get db ''k'' (with_file (on_disk db (Malformed ''{key: value,'')) ''b.json''
         (Wellformed (Obj [(''k'', Bool True)])))) = Throws ParseError \<and>
   fst (loadBackup db ''b.json'' (with_file (on_disk db (Malformed ''{key: value,'')) ''b.json''
         (Wellformed (Obj [(''k'', Bool True)])))) = Returns True \<and>
   trace (snd (loadBackup db ''b.json'' (with_file (on_disk db (Malformed ''{key: value,'')) ''b.json''
         (Wellformed (Obj [(''k'', Bool True)])))))
     = [ReadFile ''b.json'', WriteFile ''db.json''] \<and>
   fs (snd (loadBackup db ''b.json'' (with_file (on_disk db (Malformed ''{key: value,'')) ''b.json''
         (Wellformed (Obj [(''k'', Bool True)]))))) ''db.json''
     = Wellformed (Obj [(''k'', Bool True)]) \<and>
   fst (clear db (Some \<lparr>confirm = True\<rparr>)
         (with_file (on_disk db (Malformed ''{key: value,'')) ''b.json''
            (Wellformed (Obj [(''k'', Bool True)])))) = Returns True \<and>
   trace (snd (clear db (Some \<lparr>confirm = True\<rparr>)
         (with_file (on_disk db (Malformed ''{key: value,'')) ''b.json''
            (Wellformed (Obj [(''k'', Bool True)]))))) = [WriteFile ''db.json'']"
proof -
  let ?b = "Obj [(''k'', Bool True)]"
  let ?w = "with_file (on_disk db (Malformed ''{key: value,'')) ''b.json'' (Wellformed ?b)"
  have m: "fs ?w (file db) = Malformed ''{key: value,''" by (simp add: with_file_def)
  then have g: "fs ?w (file db) \<noteq> Faulty" by simp
  have h: "''b.json'' \<noteq> []" "''b.json'' \<noteq> file db" "fs ?w ''b.json'' = Wellformed ?b"
    "json_data ?b"
    by (simp_all add: with_file_def)
  have p: "fst (get db ''k'' ?w) = Throws ParseError"
    by (simp add: get_def bind_io_Throws[where m="read db" and w="?w", OF read_Malformed[OF m]])
  have t: "trace ?w = []" by (simp add: with_file_def)
  from clear_loadBackup_skip_read [OF g, of "''b.json''"] h
  have 1: "loadBackup db ''b.json'' ?w =
             (Returns True,
              ?w\<lparr>trace := trace ?w @ [ReadFile ''b.json'', WriteFile (file db)],
                 fs := (fs ?w)(file db := Wellformed (json_value ?b))\<rparr>)"
    by blast
  from clear_loadBackup_skip_read [OF g, of "''b.json''"]
  have 2: "clear db (Some \<lparr>confirm = True\<rparr>) ?w =
           (Returns True,
            ?w\<lparr>trace := trace ?w @ [WriteFile (file db)],
               fs := (fs ?w)(file db := Wellformed (Obj []))\<rparr>)"
    by blast
  have 3: "fst (loadBackup db ''b.json'' ?w) = Returns True"
    "trace (snd (loadBackup db ''b.json'' ?w)) = [ReadFile ''b.json'', WriteFile ''db.json'']"
    "fs (snd (loadBackup db ''b.json'' ?w)) ''db.json'' = Wellformed ?b"
    unfolding 1 by (simp_all add: t)
  have 4: "fst (clear db (Some \<lparr>confirm = True\<rparr>) ?w) = Returns True"
    "trace (snd (clear db (Some \<lparr>confirm = True\<rparr>) ?w)) = [WriteFile ''db.json'']"
    unfolding 2 by (simp_all add: t)
  from m g h p 3 4 show ?thesis by blast
qed

subsection \<open>Numeric accumulation\<close>

text \<open>
  C8. When the value stored at the path is present (resolution does not give \<open>null\<close>) and
  is not a number, for instance a string, \<open>add\<close> of a number fails with the error for
  data that is not a number. It has then only read the file: nothing is written and the
  stored document is unchanged.
\<close>

theorem add_non_number_fails:
  assumes "typeof val = ''number''"
    and "fs w (file this) = Wellformed data"
    and "find_sm (separator this) data ident = Returns currentVal"
    and "currentVal \<noteq> Null" and "typeof currentVal \<noteq> ''number''"
  shows "add this ident val w =
           (Throws DataNotANumber, w\<lparr>trace := trace w @ [ReadFile (file this)]\<rparr>)"
proof -
  have "ident \<noteq> []"
    using assms(3) by (auto simp: find_sm_def validateID_def split: if_splits)
  moreover have "val \<noteq> Undefined" using assms(1) by auto
  ultimately show ?thesis
    using assms
    by (simp add: add_def lift_def
        bind_io_Returns[where m="read this" and w=w, OF read_Wellformed[OF assms(2)]]
        del: typeof.simps)
qed

theorem add_non_number_fails_witness:
  "typeof (Num (Finite 5)) = ''number'' \<and>
   fs (on_disk db (Wellformed (Obj [(''non_numeric'', Str ''hello'')]))) (file db)
     = Wellformed (Obj [(''non_numeric'', Str ''hello'')]) \<and>
   find_sm (separator db) (Obj [(''non_numeric'', Str ''hello'')]) ''non_numeric''
     = Returns (Str ''hello'') \<and>
   Str ''hello'' \<noteq> Null \<and> typeof (Str ''hello'') \<noteq> ''number'' \<and>
   add db ''non_numeric'' (Num (Finite 5)) (on_disk db (Wellformed (Obj [(''non_numeric'', Str ''hello'')])))
     = (Throws DataNotANumber,
        (on_disk db (Wellformed (Obj [(''non_numeric'', Str ''hello'')])))
          \<lparr>trace := trace (on_disk db (Wellformed (Obj [(''non_numeric'', Str ''hello'')])))
                      @ [ReadFile (file db)]\<rparr>)"
proof -
  have t: "typeof (Num (Finite 5)) = ''number''" by simp
  have d: "fs (on_disk db (Wellformed (Obj [(''non_numeric'', Str ''hello'')]))) (file db)
     = Wellformed (Obj [(''non_numeric'', Str ''hello'')])" by simp
  have f: "find_sm (separator db) (Obj [(''non_numeric'', Str ''hello'')]) ''non_numeric''
     = Returns (Str ''hello'')"
    by (simp add: find_sm_def validateID_def endsWith_def)
  have n: "Str ''hello'' \<noteq> Null" "typeof (Str ''hello'') \<noteq> ''number''" by simp_all
  from add_non_number_fails [OF t d f n] t d f n show ?thesis by blast
qed




end
